theory Spec2Isabelle
  imports Main "HOL-Library.Word" "HOL-Library.Sublist"
begin

unbundle bit_operations_syntax

section \<open>Data model\<close>

text \<open>
  A Go \<open>byte\<close> is an 8-bit word, Go's \<open>int64\<close> a 64-bit word read in two's complement,
  and Go's \<open>int\<close> (the argument of \<open>encodeLength\<close>) is taken at its 64-bit width.
  A Go \<open>string\<close> is a sequence of bytes; it is modelled as an Isabelle \<open>string\<close>, and the
  conversions \<open>[]byte(s)\<close> and \<open>string(b)\<close> are written out.
\<close>

type_synonym byte = "8 word"
type_synonym int64 = "64 word"
type_synonym goint = "64 word"

definition bytes_of :: "string \<Rightarrow> byte list" where
  "bytes_of s = map of_char s"

definition string_of :: "byte list \<Rightarrow> string" where
  "string_of b = map (\<lambda>x. char_of (unat x)) b"

text \<open>
  The errors of the library. An error of the transport is known only by a number; the
  errors that the parts of the repository outside these files produce (a device error
  built from a \<open>!trap\<close> sentence, for one) are \<open>OtherError\<close>.
\<close>

datatype io_error = IOError nat

datatype error =
    EOF
  | ErrUnexpectedEOF
  | InvalidSentenceWord "byte list"
  | Transport io_error
  | errEmptyWord
  | errAsyncTimeout
  | errAsyncLoopEnded
  | LoginNoRet
  | LoginInvalidHex
  | OtherError nat

section \<open>proto/sentence.go\<close>

text \<open>
  Modelled from the spec: the file that declares \<open>Pair\<close>, \<open>Sentence\<close> and
  \<open>NewSentence\<close> is not among the sources. A pair is a key and a value; a sentence
  carries its verb (\<open>Word\<close>), its tag, the ordered list of its pairs and the mapping
  from key to value derived from them, in which a later pair with the same key wins.
  A new sentence is empty, with an empty mapping.
\<close>

record Pair =
  Key :: string
  Value :: string

record Sentence =
  Word :: string
  Tag :: string
  List :: "Pair list"
  Map :: "string \<rightharpoonup> string"

definition NewSentence :: Sentence where
  "NewSentence = \<lparr>Word = [], Tag = [], List = [], Map = Map.empty\<rparr>"


section \<open>proto/reader.go\<close>

text \<open>
  The reader's state: the bytes that the transport still delivers (behind the
  \<open>bufio.Reader\<close>), and whether the read deadline last set on the transport is a real
  deadline (\<open>now + timeout\<close>, \<open>True\<close>) or the zero time, which clears it (\<open>False\<close>).
  A read that finds too few bytes fails as \<open>io.ReadFull\<close> does.
\<close>

record reader =
  bufferedReader :: "byte list"
  readDeadline :: bool

definition setDeadline :: "bool \<Rightarrow> reader \<Rightarrow> reader" where
  "setDeadline d r = r\<lparr>readDeadline := d\<rparr>"

text \<open>\<open>readFull\<close> with a buffer of \<open>n\<close> bytes: \<open>io.ReadFull\<close> returns at once for \<open>n = 0\<close>,
  \<open>EOF\<close> when no byte could be read, \<open>ErrUnexpectedEOF\<close> when the stream ends early.\<close>

definition readFull :: "nat \<Rightarrow> bool \<Rightarrow> reader \<Rightarrow> (error + byte list) \<times> reader" where
  "readFull n d r =
     (let r1 = setDeadline d r; buf = bufferedReader r1 in
      if n = 0 then (Inr [], r1)
      else if buf = [] then (Inl EOF, r1)
      else if length buf < n then (Inl ErrUnexpectedEOF, r1\<lparr>bufferedReader := []\<rparr>)
      else (Inr (take n buf), r1\<lparr>bufferedReader := drop n buf\<rparr>))"

text \<open>The loop of \<open>readNumber\<close>: \<open>num = num<<8 | int64(ch)\<close> over the bytes read.\<close>

definition readNumber_loop :: "byte list \<Rightarrow> int64" where
  "readNumber_loop b = foldl (\<lambda>num ch. push_bit 8 num OR ucast ch) 0 b"

definition readNumber :: "nat \<Rightarrow> bool \<Rightarrow> reader \<Rightarrow> (error + int64) \<times> reader" where
  "readNumber size' d r =
     (case readFull size' d r of
        (Inl e, r1) \<Rightarrow> (Inl e, r1)
      | (Inr b, r1) \<Rightarrow> (Inr (readNumber_loop b), r1))"

definition readLength :: "bool \<Rightarrow> reader \<Rightarrow> (error + int64) \<times> reader" where
  "readLength d r =
     (case readNumber 1 d r of
        (Inl e, r1) \<Rightarrow> (Inl e, r1)
      | (Inr l, r1) \<Rightarrow>
          if l AND 0x80 = 0x00 then (Inr l, r1)
          else if l AND 0xC0 = 0x80 then
            (case readNumber 1 True r1 of
               (Inl e, r2) \<Rightarrow> (Inl e, r2)
             | (Inr n, r2) \<Rightarrow> (Inr (push_bit 8 (l AND NOT 0xC0) OR n), r2))
          else if l AND 0xE0 = 0xC0 then
            (case readNumber 2 True r1 of
               (Inl e, r2) \<Rightarrow> (Inl e, r2)
             | (Inr n, r2) \<Rightarrow> (Inr (push_bit 16 (l AND NOT 0xE0) OR n), r2))
          else if l AND 0xF0 = 0xE0 then
            (case readNumber 3 True r1 of
               (Inl e, r2) \<Rightarrow> (Inl e, r2)
             | (Inr n, r2) \<Rightarrow> (Inr (push_bit 24 (l AND NOT 0xF0) OR n), r2))
          else if l AND 0xF8 = 0xF0 then
            (case readNumber 4 True r1 of
               (Inl e, r2) \<Rightarrow> (Inl e, r2)
             | (Inr n, r2) \<Rightarrow> (Inr n, r2))
          else (Inr l, r1))"

text \<open>\<open>readWord\<close>: \<open>make([]byte, l)\<close> panics for a negative length; \<open>readLength\<close> never
  returns one, and the model reads \<open>unat l\<close> bytes.\<close>

definition readWord :: "bool \<Rightarrow> reader \<Rightarrow> (error + byte list) \<times> reader" where
  "readWord d r =
     (case readLength d r of
        (Inl e, r1) \<Rightarrow> (Inl e, r1)
      | (Inr l, r1) \<Rightarrow> readFull (unat l) True r1)"

text \<open>\<open>bytes.SplitN(s, sep, 2)\<close> for a separator of one byte: the part before the
  first separator and the part after it, or \<open>s\<close> alone when there is none.\<close>

definition SplitN2 :: "byte list \<Rightarrow> byte \<Rightarrow> byte list list" where
  "SplitN2 s sep =
     (case dropWhile (\<lambda>x. x \<noteq> sep) s of
        [] \<Rightarrow> [s]
      | _ # rest \<Rightarrow> [takeWhile (\<lambda>x. x \<noteq> sep) s, rest])"


text \<open>
  Every word that \<open>readWord\<close> returns has used up at least its length byte, which is
  why the loop of \<open>ReadSentence\<close> ends on every finite input.
\<close>

lemma readFull_length:
  "readFull n d r = (res, r1) \<Longrightarrow> length (bufferedReader r1) \<le> length (bufferedReader r)"
  by (auto simp: readFull_def setDeadline_def Let_def split: if_splits)

lemma readFull_shrinks:
  "readFull n d r = (Inr b, r1) \<Longrightarrow> 0 < n \<Longrightarrow> length (bufferedReader r1) < length (bufferedReader r)"
  by (auto simp: readFull_def setDeadline_def Let_def split: if_splits)

lemma readNumber_shrinks:
  "readNumber n d r = (Inr b, r1) \<Longrightarrow> 0 < n \<Longrightarrow> length (bufferedReader r1) < length (bufferedReader r)"
  by (auto simp: readNumber_def split: prod.splits sum.splits dest: readFull_shrinks)

lemma readNumber_length:
  "readNumber n d r = (res, r1) \<Longrightarrow> length (bufferedReader r1) \<le> length (bufferedReader r)"
  by (auto simp: readNumber_def split: prod.splits sum.splits dest: readFull_length)

lemma readLength_shrinks:
  assumes "readLength d r = (Inr l, r1)"
  shows "length (bufferedReader r1) < length (bufferedReader r)"
proof -
  obtain l0 r0 where first: "readNumber 1 d r = (Inr l0, r0)"
    using assms by (auto simp: readLength_def split: prod.splits sum.splits)
  have lt: "length (bufferedReader r0) < length (bufferedReader r)"
    using readNumber_shrinks [OF first] by simp
  have "length (bufferedReader r1) \<le> length (bufferedReader r0)"
    using assms first
    by (auto simp: readLength_def split: prod.splits sum.splits if_splits
             dest: readNumber_length)
  with lt show ?thesis by simp
qed

lemma readWord_shrinks:
  assumes "readWord d r = (Inr b, r1)"
  shows "length (bufferedReader r1) < length (bufferedReader r)"
proof -
  obtain l r0 where len: "readLength d r = (Inr l, r0)" and full: "readFull (unat l) True r0 = (Inr b, r1)"
    using assms by (auto simp: readWord_def split: prod.splits sum.splits)
  show ?thesis using readLength_shrinks [OF len] readFull_length [OF full] by simp
qed

function ReadSentence_loop :: "bool \<Rightarrow> Sentence \<Rightarrow> reader \<Rightarrow> (error + Sentence) \<times> reader" where
  "ReadSentence_loop d sen r =
     (case readWord d r of
        (Inl e, r1) \<Rightarrow> (Inl e, r1)
      | (Inr b, r1) \<Rightarrow>
          if length b = 0 then (Inr sen, r1)
          else if Word sen = [] then ReadSentence_loop d (sen\<lparr>Word := string_of b\<rparr>) r1
          else if prefix (bytes_of ''.tag='') b then
            ReadSentence_loop d (sen\<lparr>Tag := string_of (drop 5 b)\<rparr>) r1
          else if prefix (bytes_of ''='') b then
            (let t = SplitN2 (drop 1 b) (of_char CHR ''='');
                 t = (if length t = 1 then t @ [[]] else t);
                 p = \<lparr>Key = string_of (t ! 0), Value = string_of (t ! 1)\<rparr>
             in ReadSentence_loop d
                  (sen\<lparr>List := List sen @ [p], Map := (Map sen)(Key p \<mapsto> Value p)\<rparr>) r1)
          else (Inl (InvalidSentenceWord b), r1))"
  by pat_completeness auto
termination
  by (relation "measure (\<lambda>(d, sen, r). length (bufferedReader r))")
     (auto dest: readWord_shrinks [OF sym])

declare ReadSentence_loop.simps [simp del]

definition ReadSentence :: "bool \<Rightarrow> reader \<Rightarrow> (error + Sentence) \<times> reader" where
  "ReadSentence d r = ReadSentence_loop d NewSentence r"

section \<open>proto/writer.go: the length prefix\<close>

text \<open>\<open>encodeLength\<close>: the comparisons are signed, \<open>>>\<close> on an \<open>int\<close> is the arithmetic
  shift, and \<open>byte(x)\<close> keeps the low eight bits.\<close>

definition encodeLength :: "goint \<Rightarrow> byte list" where
  "encodeLength l =
     (if l <s 0x80 then [ucast l]
      else if l <s 0x4000 then [ucast (signed_drop_bit 8 l) OR 0x80, ucast l]
      else if l <s 0x200000 then
        [ucast (signed_drop_bit 16 l) OR 0xC0, ucast (signed_drop_bit 8 l), ucast l]
      else if l <s 0x10000000 then
        [ucast (signed_drop_bit 24 l) OR 0xE0, ucast (signed_drop_bit 16 l),
         ucast (signed_drop_bit 8 l), ucast l]
      else
        [0xF0, ucast (signed_drop_bit 24 l), ucast (signed_drop_bit 16 l),
         ucast (signed_drop_bit 8 l), ucast l])"

section \<open>proto/writer.go: the writer\<close>

text \<open>
  The writer's state. \<open>calls\<close> is what has reached the \<open>bufio.Writer\<close> and the
  transport so far, in order: every arming of the write deadline, every \<open>Write\<close> with
  its bytes, every \<open>Flush\<close>. \<open>faults\<close> is the transport's part: the result that each
  coming \<open>Write\<close> or \<open>Flush\<close> will give, in order (\<open>None\<close> is success, and past the
  end of the list every call succeeds). \<open>err\<close> is the sticky error of the writer and
  \<open>locked\<close> its mutex. The deadline is \<open>now + timeout\<close>; the time is left out.
\<close>

datatype io_call = SetWriteDeadline | Write "byte list" | Flush

record writer =
  calls :: "io_call list"
  faults :: "io_error option list"
  err :: "io_error option"
  locked :: bool

definition NewWriter :: "io_error option list \<Rightarrow> writer" where
  "NewWriter fs = \<lparr>calls = [], faults = fs, err = None, locked = False\<rparr>"

definition writer_setDeadline :: "writer \<Rightarrow> writer" where
  "writer_setDeadline w = w\<lparr>calls := calls w @ [SetWriteDeadline]\<rparr>"

text \<open>One call of \<open>bufferedWriter.Write\<close> or \<open>bufferedWriter.Flush\<close>: it is recorded, and
  its result is the next one the transport has in store.\<close>

definition bufferedWriter :: "io_call \<Rightarrow> writer \<Rightarrow> io_error option \<times> writer" where
  "bufferedWriter c w =
     (case faults w of
        [] \<Rightarrow> (None, w\<lparr>calls := calls w @ [c]\<rparr>)
      | f # fs \<Rightarrow> (f, w\<lparr>calls := calls w @ [c], faults := fs\<rparr>))"

definition flush :: "writer \<Rightarrow> writer" where
  "flush w =
     (if err w \<noteq> None then w
      else case bufferedWriter Flush (writer_setDeadline w) of
             (None, w1) \<Rightarrow> w1
           | (Some e, w1) \<Rightarrow> w1\<lparr>err := Some e\<rparr>)"

text \<open>The method \<open>write\<close>; its name is a keyword of Isabelle.\<close>

definition writer_write :: "byte list \<Rightarrow> writer \<Rightarrow> writer" where
  "writer_write b w =
     (if err w \<noteq> None then w
      else case bufferedWriter (Write b) (writer_setDeadline w) of
             (None, w1) \<Rightarrow> w1
           | (Some e, w1) \<Rightarrow> w1\<lparr>err := Some e\<rparr>)"

definition WriteWord :: "string \<Rightarrow> writer \<Rightarrow> writer" where
  "WriteWord word w =
     (let b = bytes_of word
      in writer_write b (writer_write (encodeLength (of_nat (length b))) w))"

text \<open>
  \<open>BeginSentence\<close> locks the mutex and \<open>EndSentence\<close> unlocks it when it returns. A call
  that does not return is \<open>None\<close>: \<open>Lock\<close> on the held mutex blocks (nothing else runs
  in this sequential model to release it), and \<open>Unlock\<close> of a free mutex is a fatal
  error of the Go runtime.
\<close>

definition BeginSentence :: "writer \<Rightarrow> writer option" where
  "BeginSentence w = (if locked w then None else Some (w\<lparr>locked := True\<rparr>))"

definition EndSentence :: "writer \<Rightarrow> (io_error option \<times> writer) option" where
  "EndSentence w =
     (let w1 = flush (WriteWord [] w)
      in if locked w1 then Some (err w1, w1\<lparr>locked := False\<rparr>) else None)"

section \<open>The client\<close>

text \<open>
  Modelled from the spec: \<open>Reply\<close> and the entry of a pending asynchronous command
  (\<open>asyncReply\<close>, with the fields of \<open>chanReply\<close>) are declared in files that are not
  among the sources. A reply is the list of its \<open>!re\<close> sentences and its terminal
  sentence, \<open>nil\<close> until it has been seen. An entry has its tag, the error and the
  reply that the background loop writes into it, and a completion channel.
\<close>

record Reply =
  Re :: "Sentence list"
  Done :: "Sentence option"

record asyncReply =
  tag :: string
  a_err :: "error option"
  a_Reply :: Reply

text \<open>
  The client. Its fields \<open>r\<close> and \<open>w\<close> are \<open>c_r\<close> and \<open>c_w\<close> here; \<open>tags\<close> is a Go map,
  \<open>nil\<close> until asynchronous mode is switched on; \<open>timeout\<close> is a \<open>time.Duration\<close>, a
  signed 64-bit count of nanoseconds. The connection is present through the reader
  and the writer. The mutex \<open>mu\<close> is released by every function that takes it before
  it returns, and is left out.
\<close>

record Client =
  c_r :: reader
  c_w :: writer
  closing :: bool
  async :: bool
  lastTag :: "64 word"
  tags :: "(string \<rightharpoonup> asyncReply) option"
  timeout :: int64

definition NewClient :: "byte list \<Rightarrow> io_error option list \<Rightarrow> int64 \<Rightarrow> Client" where
  "NewClient input fs t =
     \<lparr>c_r = \<lparr>bufferedReader = input, readDeadline = False\<rparr>, c_w = NewWriter fs,
      closing = False, async = False, lastTag = 0, tags = None, timeout = t\<rparr>"

text \<open>\<open>nextTag\<close>: the atomic \<open>Add(1)\<close> on the 64-bit counter is one step, and wraps.\<close>

definition nextTag :: "Client \<Rightarrow> 64 word \<times> Client" where
  "nextTag c = (lastTag c + 1, c\<lparr>lastTag := lastTag c + 1\<rparr>)"

text \<open>\<open>strconv.FormatUint(n, 10)\<close>: the decimal digits of \<open>n\<close>, most significant first.\<close>

fun FormatUint :: "nat \<Rightarrow> string" where
  "FormatUint n =
     (if n < 10 then [char_of (48 + n)]
      else FormatUint (n div 10) @ [char_of (48 + n mod 10)])"

declare FormatUint.simps [simp del]

text \<open>\<open>strings.Trim(s, cutset)\<close>: \<open>s\<close> without its leading and trailing characters that
  are in \<open>cutset\<close>.\<close>

definition Trim :: "string \<Rightarrow> string \<Rightarrow> string" where
  "Trim s cutset =
     rev (dropWhile (\<lambda>c. c \<in> set cutset) (rev (dropWhile (\<lambda>c. c \<in> set cutset) s)))"

text \<open>
  \<open>newTimeoutTimer\<close>: a timer and its channel for a positive duration, and otherwise
  the \<open>nil\<close> timer and the \<open>nil\<close> channel.
\<close>

datatype timer = Timer int64

definition newTimeoutTimer :: "int64 \<Rightarrow> timer option" where
  "newTimeoutTimer d = (if 0 <s d then Some (Timer d) else None)"

text \<open>
  What the \<open>select\<close> of \<open>RunArgs\<close> can meet while it waits for an entry: a sentence
  received on the completion channel, the channel found closed (with the reply and
  the error that the background loop has written into the entry by then), or the
  timer's channel delivering. The order of the events is the environment's. A
  \<open>nil\<close> channel is never ready, so without a timer that case of the \<open>select\<close> is not
  taken; with no event left the \<open>select\<close> blocks, and the call does not return.
\<close>

datatype chan_event = Received | Closed Reply "error option" | TimerFired

fun readAllSentences :: "int64 \<Rightarrow> chan_event list \<Rightarrow> (Reply option \<times> error option) option" where
  "readAllSentences d [] = None"
| "readAllSentences d (Received # evs) = readAllSentences d evs"
| "readAllSentences d (Closed rep e # evs) = Some (Some rep, e)"
| "readAllSentences d (TimerFired # evs) =
     (case newTimeoutTimer d of
        None \<Rightarrow> readAllSentences d evs
      | Some t \<Rightarrow> Some (None, Some errAsyncTimeout))"

text \<open>
  \<open>readReply\<close>, which reads and aggregates the reply in synchronous mode, is not among
  the sources: it is a parameter, a function from the client to the pair that
  \<open>RunArgs\<close> returns and the client afterwards. The results of a Go function
  returning \<open>(*Reply, error)\<close> are a pair of options, \<open>None\<close> for \<open>nil\<close>.
\<close>

type_synonym run_result = "Reply option \<times> error option"

definition endCommandSync ::
  "(Client \<Rightarrow> run_result \<times> Client) \<Rightarrow> Client \<Rightarrow> (run_result \<times> Client) option" where
  "endCommandSync readReply c =
     (case EndSentence (c_w c) of
        None \<Rightarrow> None
      | Some (Some e, w1) \<Rightarrow> Some ((None, Some (Transport e)), c\<lparr>c_w := w1\<rparr>)
      | Some (None, w1) \<Rightarrow> Some (readReply (c\<lparr>c_w := w1\<rparr>)))"

definition endCommandAsync :: "Client \<Rightarrow> ((error + asyncReply) \<times> Client) option" where
  "endCommandAsync c =
     (let (n, c1) = nextTag c;
          a = \<lparr>tag = ''r'' @ FormatUint (unat n), a_err = None,
               a_Reply = \<lparr>Re = [], Done = None\<rparr>\<rparr>;
          c2 = c1\<lparr>c_w := WriteWord (''.tag='' @ tag a) (c_w c1)\<rparr>
      in case EndSentence (c_w c2) of
           None \<Rightarrow> None
         | Some (Some e, w3) \<Rightarrow> Some (Inl (Transport e), c2\<lparr>c_w := w3\<rparr>)
         | Some (None, w3) \<Rightarrow>
             (case tags c2 of
                None \<Rightarrow> Some (Inl errAsyncLoopEnded, c2\<lparr>c_w := w3\<rparr>)
              | Some m \<Rightarrow> Some (Inr a, c2\<lparr>c_w := w3, tags := Some (m(tag a \<mapsto> a))\<rparr>)))"

text \<open>The first loop of \<open>RunArgs\<close>: is there a word that is empty once its leading and
  trailing spaces are trimmed?\<close>

fun hasEmptyWord :: "string list \<Rightarrow> bool" where
  "hasEmptyWord [] = False"
| "hasEmptyWord (word # sentence) =
     (if length (Trim word '' '') = 0 then True else hasEmptyWord sentence)"

text \<open>
  \<open>RunArgs\<close>. Besides \<open>readReply\<close> it takes the events that the \<open>select\<close> will meet
  while waiting for the entry with a given tag.
\<close>

definition RunArgs ::
  "(Client \<Rightarrow> run_result \<times> Client) \<Rightarrow> (string \<Rightarrow> chan_event list) \<Rightarrow> Client \<Rightarrow> string list
   \<Rightarrow> (run_result \<times> Client) option" where
  "RunArgs readReply events c sentence =
     (if hasEmptyWord sentence then Some ((None, Some errEmptyWord), c)
      else case BeginSentence (c_w c) of
             None \<Rightarrow> None
           | Some w1 \<Rightarrow>
               (let c1 = c\<lparr>c_w := foldl (\<lambda>w word. WriteWord word w) w1 sentence\<rparr>
                in if \<not> async c1 then endCommandSync readReply c1
                   else case endCommandAsync c1 of
                          None \<Rightarrow> None
                        | Some (Inl e, c2) \<Rightarrow> Some ((None, Some e), c2)
                        | Some (Inr a, c2) \<Rightarrow>
                            map_option (\<lambda>res. (res, c2))
                              (readAllSentences (timeout c2) (events (tag a)))))"

definition Run ::
  "(Client \<Rightarrow> run_result \<times> Client) \<Rightarrow> (string \<Rightarrow> chan_event list) \<Rightarrow> Client \<Rightarrow> string list
   \<Rightarrow> (run_result \<times> Client) option" where
  "Run readReply events c sentence = RunArgs readReply events c sentence"

section \<open>Login\<close>







section \<open>The documented size classes\<close>

text \<open>
  The five size classes as the wire-format description words them, over the length as a
  natural number: the number of bytes of the prefix, the marker bits that open the first
  byte and the mask that selects them, and the value of a byte string read big-endian.
\<close>

definition documented_size :: "nat \<Rightarrow> nat" where
  "documented_size L =
     (if L < 0x80 then 1 else if L < 0x4000 then 2 else if L < 0x200000 then 3
      else if L < 0x10000000 then 4 else 5)"

definition marker_mask :: "nat \<Rightarrow> byte" where
  "marker_mask L =
     (if L < 0x80 then 0x80 else if L < 0x4000 then 0xC0 else if L < 0x200000 then 0xE0
      else if L < 0x10000000 then 0xF0 else 0xFF)"

definition marker_bits :: "nat \<Rightarrow> byte" where
  "marker_bits L =
     (if L < 0x80 then 0x00 else if L < 0x4000 then 0x80 else if L < 0x200000 then 0xC0
      else if L < 0x10000000 then 0xE0 else 0xF0)"

definition big_endian :: "byte list \<Rightarrow> nat" where
  "big_endian bs = foldl (\<lambda>a b. a * 256 + unat b) 0 bs"

text \<open>A word on the wire: its length prefix, then its bytes. The empty word, a single
  zero byte, ends a sentence.\<close>

definition wire_word :: "string \<Rightarrow> byte list" where
  "wire_word s = encodeLength (of_nat (length (bytes_of s))) @ bytes_of s"

text \<open>
  The sentence layer as the description words it, over strings. A word after the verb
  is well-formed when it starts with \<open>.tag=\<close> or with \<open>=\<close>. A \<open>.tag=\<close> word sets the
  tag to what follows the prefix; a \<open>=\<close> word is split at the first \<open>=\<close> after the
  leading one into a key and a value (empty when there is none), appended to the list
  of pairs and entered in the mapping.
\<close>

definition valid_word :: "string \<Rightarrow> bool" where
  "valid_word word = (prefix ''.tag='' word \<or> prefix ''='' word)"

definition store_word :: "Sentence \<Rightarrow> string \<Rightarrow> Sentence" where
  "store_word sen word =
     (if prefix ''.tag='' word then sen\<lparr>Tag := drop 5 word\<rparr>
      else let body = drop 1 word;
               k = takeWhile (\<lambda>ch. ch \<noteq> CHR ''='') body;
               v = drop 1 (dropWhile (\<lambda>ch. ch \<noteq> CHR ''='') body)
           in sen\<lparr>List := List sen @ [\<lparr>Key = k, Value = v\<rparr>], Map := (Map sen)(k \<mapsto> v)\<rparr>)"

definition store_words :: "Sentence \<Rightarrow> string list \<Rightarrow> Sentence" where
  "store_words sen ws = foldl store_word sen ws"

section \<open>The writer and the client as the description words them\<close>

text \<open>
  The calls that writing a sentence makes if nothing fails: for each word the write of
  its length prefix and the write of its bytes, the same for the empty word that ends
  the sentence, and one flush. \<open>armed\<close> puts the arming of the deadline before each
  call. \<open>successes\<close> counts the results of the transport before its first failure, and
  \<open>perform\<close> carries out one call on the writer.
\<close>

definition word_calls :: "string \<Rightarrow> io_call list" where
  "word_calls word =
     [Write (encodeLength (of_nat (length (bytes_of word)))), Write (bytes_of word)]"

definition sentence_calls :: "string list \<Rightarrow> io_call list" where
  "sentence_calls ws = concat (map word_calls ws) @ word_calls [] @ [Flush]"

definition armed :: "io_call list \<Rightarrow> io_call list" where
  "armed ops = concat (map (\<lambda>c. [SetWriteDeadline, c]) ops)"

definition successes :: "io_error option list \<Rightarrow> nat" where
  "successes fs = length (takeWhile (\<lambda>f. f = None) fs)"

fun perform :: "io_call \<Rightarrow> writer \<Rightarrow> writer" where
  "perform (Write b) w = writer_write b w"
| "perform Flush w = flush w"
| "perform SetWriteDeadline w = writer_setDeadline w"

text \<open>A word of white space only, as the phrase is usually read (and as Go's
  \<open>unicode.IsSpace\<close> has it on ASCII): tab, line feed, vertical tab, form feed, carriage
  return and space.\<close>

definition all_whitespace :: "string \<Rightarrow> bool" where
  "all_whitespace word =
     (\<forall>ch \<in> set word. ch \<in> {CHR 0x09, CHR 0x0A, CHR 0x0B, CHR 0x0C, CHR 0x0D, CHR '' ''})"

text \<open>The number that a string of decimal digits denotes.\<close>

definition decimal_value :: "string \<Rightarrow> nat" where
  "decimal_value s = foldl (\<lambda>a ch. a * 10 + (of_char ch - 48)) 0 s"



section \<open>Words: signed comparisons and single bits\<close>

lemma upper_bits_unset:
  fixes l :: "'a::len word"
  assumes "uint l < 2 ^ m" "m \<le> n"
  shows "\<not> bit l n"
proof
  assume bl: "bit l n"
  then have "n < LENGTH('a)" by (rule bit_imp_le_length)
  with bl have b: "bit (uint l) n" by (simp add: bit_uint_iff)
  have "take_bit m (uint l) = uint l"
    using assms(1) by (simp add: take_bit_int_eq_self)
  then have "bit (take_bit m (uint l)) n" using b by simp
  then show False using assms(2) by (simp add: bit_take_bit_iff)
qed

lemma nonneg_top_bit:
  fixes l :: "'a::len word"
  assumes "0 \<le>s l"
  shows "\<not> bit l (LENGTH('a) - Suc 0)"
proof -
  from assms have "\<not> sint l < 0" by (simp add: word_sle_eq)
  then show ?thesis by (simp add: bit_last_iff)
qed

lemma sint_nonneg_eq_uint:
  fixes l :: "'a::len word"
  assumes "0 \<le>s l"
  shows "sint l = uint l"
proof -
  have nb: "\<not> bit l (LENGTH('a) - Suc 0)" using assms by (rule nonneg_top_bit)
  have "sint l = signed_take_bit (LENGTH('a) - Suc 0) (uint l)" by (simp add: sint_uint)
  also have "\<dots> = uint l"
  proof (rule bit_eqI)
    fix n
    have "LENGTH('a) - Suc 0 \<le> n \<Longrightarrow> n < LENGTH('a) \<Longrightarrow> n = LENGTH('a) - Suc 0" by arith
    then show "bit (signed_take_bit (LENGTH('a) - Suc 0) (uint l)) n = bit (uint l) n"
      using nb by (auto simp add: bit_signed_take_bit_iff bit_uint_iff min_def not_le)
  qed
  finally show ?thesis .
qed

lemma nonneg_signed_drop_bit:
  fixes l :: "'a::len word"
  assumes "0 \<le>s l"
  shows "signed_drop_bit n l = drop_bit n l"
proof -
  have nb: "\<not> bit l (LENGTH('a) - Suc 0)" using assms by (rule nonneg_top_bit)
  show ?thesis
    apply (rule bit_word_eqI)
    using nb apply (auto simp add: bit_signed_drop_bit_iff bit_drop_bit_eq dest: bit_imp_le_length)
    done
qed

lemma sless_uint:
  fixes l c :: "'a::len word"
  assumes "0 \<le>s l" "0 \<le>s c"
  shows "l <s c \<longleftrightarrow> uint l < uint c"
  using assms by (simp add: word_sless_alt sint_nonneg_eq_uint)

lemma bit_below:
  fixes l :: "'a::len word"
  assumes "uint l < 2 ^ m" "bit l n"
  shows "n < m"
  using upper_bits_unset [OF assms(1), of n] assms(2) by (cases "m \<le> n") auto

lemma bit_0x80: "bit (0x80 :: 'a::len word) n \<longleftrightarrow> n = 7 \<and> n < LENGTH('a)"
proof -
  have "(0x80 :: 'a word) = push_bit 7 (mask 1)" by (simp add: mask_eq_exp_minus_1)
  then show ?thesis by (simp only: bit_simps) auto
qed

lemma bit_0xC0: "bit (0xC0 :: 'a::len word) n \<longleftrightarrow> (n = 6 \<or> n = 7) \<and> n < LENGTH('a)"
proof -
  have "(0xC0 :: 'a word) = push_bit 6 (mask 2)" by (simp add: mask_eq_exp_minus_1)
  then show ?thesis by (simp only: bit_simps) auto
qed

lemma bit_0xE0: "bit (0xE0 :: 'a::len word) n \<longleftrightarrow> (5 \<le> n \<and> n \<le> 7) \<and> n < LENGTH('a)"
proof -
  have "(0xE0 :: 'a word) = push_bit 5 (mask 3)" by (simp add: mask_eq_exp_minus_1)
  then show ?thesis by (simp only: bit_simps) auto
qed

lemma bit_0xF0: "bit (0xF0 :: 'a::len word) n \<longleftrightarrow> (4 \<le> n \<and> n \<le> 7) \<and> n < LENGTH('a)"
proof -
  have "(0xF0 :: 'a word) = push_bit 4 (mask 4)" by (simp add: mask_eq_exp_minus_1)
  then show ?thesis by (simp only: bit_simps) auto
qed

lemma bit_0xF8: "bit (0xF8 :: 'a::len word) n \<longleftrightarrow> (3 \<le> n \<and> n \<le> 7) \<and> n < LENGTH('a)"
proof -
  have "(0xF8 :: 'a word) = push_bit 3 (mask 5)" by (simp add: mask_eq_exp_minus_1)
  then show ?thesis by (simp only: bit_simps) auto
qed

lemmas bit_consts = bit_0x80 bit_0xC0 bit_0xE0 bit_0xF0 bit_0xF8

lemma readLength_one:
  assumes "(ucast b0 :: int64) AND 0x80 = 0"
  shows "readLength d (r\<lparr>bufferedReader := b0 # rest\<rparr>)
         = (Inr (ucast b0), r\<lparr>bufferedReader := rest, readDeadline := d\<rparr>)"
  using assms
  by (simp add: readLength_def readNumber_def readFull_def setDeadline_def readNumber_loop_def)

lemma and_0x80_of_0xC0:
  fixes x :: int64
  shows "x AND 0x80 = (x AND 0xC0) AND 0x80"
  by (simp add: and.assoc)

lemma and_0xC0_of_0xE0:
  fixes x :: int64
  shows "x AND 0xC0 = (x AND 0xE0) AND 0xC0"
  by (simp add: and.assoc)

lemma and_0xE0_of_0xF0:
  fixes x :: int64
  shows "x AND 0xE0 = (x AND 0xF0) AND 0xE0"
  by (simp add: and.assoc)

lemma and_0xF0_of_0xF8:
  fixes x :: int64
  shows "x AND 0xF0 = (x AND 0xF8) AND 0xF0"
  by (simp add: and.assoc)

lemma readLength_two:
  assumes "(ucast b0 :: int64) AND 0xC0 = 0x80"
  shows "readLength d (r\<lparr>bufferedReader := b0 # b1 # rest\<rparr>)
         = (Inr (push_bit 8 (ucast b0 AND NOT 0xC0) OR ucast b1),
            r\<lparr>bufferedReader := rest, readDeadline := True\<rparr>)"
proof -
  have "(ucast b0 :: int64) AND 0x80 \<noteq> 0"
    by (subst and_0x80_of_0xC0) (simp add: assms)
  then show ?thesis using assms
    by (simp add: readLength_def readNumber_def readFull_def setDeadline_def readNumber_loop_def)
qed

lemma readLength_three:
  assumes "(ucast b0 :: int64) AND 0xE0 = 0xC0"
  shows "readLength d (r\<lparr>bufferedReader := b0 # b1 # b2 # rest\<rparr>)
         = (Inr (push_bit 16 (ucast b0 AND NOT 0xE0) OR (push_bit 8 (ucast b1) OR ucast b2)),
            r\<lparr>bufferedReader := rest, readDeadline := True\<rparr>)"
proof -
  have c: "(ucast b0 :: int64) AND 0xC0 = 0xC0"
    by (subst and_0xC0_of_0xE0) (simp add: assms)
  have "(ucast b0 :: int64) AND 0x80 \<noteq> 0"
    by (subst and_0x80_of_0xC0) (simp add: c)
  then show ?thesis using assms c
    by (simp add: readLength_def readNumber_def readFull_def setDeadline_def readNumber_loop_def)
qed

lemma readLength_four:
  assumes "(ucast b0 :: int64) AND 0xF0 = 0xE0"
  shows "readLength d (r\<lparr>bufferedReader := b0 # b1 # b2 # b3 # rest\<rparr>)
         = (Inr (push_bit 24 (ucast b0 AND NOT 0xF0)
                 OR (push_bit 8 (push_bit 8 (ucast b1) OR ucast b2) OR ucast b3)),
            r\<lparr>bufferedReader := rest, readDeadline := True\<rparr>)"
proof -
  have e: "(ucast b0 :: int64) AND 0xE0 = 0xE0"
    by (subst and_0xE0_of_0xF0) (simp add: assms)
  have c: "(ucast b0 :: int64) AND 0xC0 = 0xC0"
    by (subst and_0xC0_of_0xE0) (simp add: e)
  have "(ucast b0 :: int64) AND 0x80 \<noteq> 0"
    by (subst and_0x80_of_0xC0) (simp add: c)
  then show ?thesis using assms c e
    by (simp add: readLength_def readNumber_def readFull_def setDeadline_def readNumber_loop_def)
qed

lemma readLength_five:
  assumes "(ucast b0 :: int64) AND 0xF8 = 0xF0"
  shows "readLength d (r\<lparr>bufferedReader := b0 # b1 # b2 # b3 # b4 # rest\<rparr>)
         = (Inr (push_bit 8 (push_bit 8 (push_bit 8 (ucast b1) OR ucast b2) OR ucast b3)
                 OR ucast b4),
            r\<lparr>bufferedReader := rest, readDeadline := True\<rparr>)"
proof -
  have f: "(ucast b0 :: int64) AND 0xF0 = 0xF0"
    by (subst and_0xF0_of_0xF8) (simp add: assms)
  have e: "(ucast b0 :: int64) AND 0xE0 = 0xE0"
    by (subst and_0xE0_of_0xF0) (simp add: f)
  have c: "(ucast b0 :: int64) AND 0xC0 = 0xC0"
    by (subst and_0xC0_of_0xE0) (simp add: e)
  have "(ucast b0 :: int64) AND 0x80 \<noteq> 0"
    by (subst and_0x80_of_0xC0) (simp add: c)
  then show ?thesis using assms c e f
    by (simp add: readLength_def readNumber_def readFull_def setDeadline_def readNumber_loop_def)
qed

lemma readLength_unmarked:
  assumes "(ucast b0 :: int64) AND 0xF8 = 0xF8"
  shows "readLength d (r\<lparr>bufferedReader := b0 # rest\<rparr>)
         = (Inr (ucast b0), r\<lparr>bufferedReader := rest, readDeadline := d\<rparr>)"
proof -
  have f: "(ucast b0 :: int64) AND 0xF0 = 0xF0"
    by (subst and_0xF0_of_0xF8) (simp add: assms)
  have e: "(ucast b0 :: int64) AND 0xE0 = 0xE0"
    by (subst and_0xE0_of_0xF0) (simp add: f)
  have c: "(ucast b0 :: int64) AND 0xC0 = 0xC0"
    by (subst and_0xC0_of_0xE0) (simp add: e)
  have "(ucast b0 :: int64) AND 0x80 \<noteq> 0"
    by (subst and_0x80_of_0xC0) (simp add: c)
  then show ?thesis using assms c e f
    by (simp add: readLength_def readNumber_def readFull_def setDeadline_def readNumber_loop_def)
qed

lemma tag_one:
  fixes l :: "64 word"
  assumes "uint l < 2 ^ 7"
  shows "(ucast (ucast l :: byte) :: int64) AND 0x80 = 0"
proof (rule bit_word_eqI)
  fix n assume "n < LENGTH(64)"
  show "bit ((ucast (ucast l :: byte) :: int64) AND 0x80) n = bit (0 :: int64) n"
    using bit_below[OF assms, of n]
    by (simp only: bit_simps bit_consts) auto
qed

lemma value_one:
  fixes l :: "64 word"
  assumes "uint l < 2 ^ 7"
  shows "(ucast (ucast l :: byte) :: int64) = l"
proof (rule bit_word_eqI)
  fix n assume "n < LENGTH(64)"
  show "bit (ucast (ucast l :: byte) :: int64) n = bit l n"
    using bit_below[OF assms, of n]
    by (simp only: bit_simps bit_consts) auto
qed

lemma tag_two:
  fixes l :: "64 word"
  assumes "uint l < 2 ^ 14"
  shows "(ucast (ucast (drop_bit 8 l) OR (0x80 :: byte)) :: int64) AND 0xC0 = 0x80"
proof (rule bit_word_eqI)
  fix n assume "n < LENGTH(64)"
  show "bit ((ucast (ucast (drop_bit 8 l) OR (0x80 :: byte)) :: int64) AND 0xC0) n
        = bit (0x80 :: int64) n"
    using bit_below[OF assms, of "8 + n"]
    by (simp only: bit_simps bit_consts) auto
qed

lemma tag_three:
  fixes l :: "64 word"
  assumes "uint l < 2 ^ 21"
  shows "(ucast (ucast (drop_bit 16 l) OR (0xC0 :: byte)) :: int64) AND 0xE0 = 0xC0"
proof (rule bit_word_eqI)
  fix n assume "n < LENGTH(64)"
  show "bit ((ucast (ucast (drop_bit 16 l) OR (0xC0 :: byte)) :: int64) AND 0xE0) n
        = bit (0xC0 :: int64) n"
    using bit_below[OF assms, of "16 + n"]
    by (simp only: bit_simps bit_consts) auto
qed

lemma tag_four:
  fixes l :: "64 word"
  assumes "uint l < 2 ^ 28"
  shows "(ucast (ucast (drop_bit 24 l) OR (0xE0 :: byte)) :: int64) AND 0xF0 = 0xE0"
proof (rule bit_word_eqI)
  fix n assume "n < LENGTH(64)"
  show "bit ((ucast (ucast (drop_bit 24 l) OR (0xE0 :: byte)) :: int64) AND 0xF0) n
        = bit (0xE0 :: int64) n"
    using bit_below[OF assms, of "24 + n"]
    by (simp only: bit_simps bit_consts) auto
qed

lemma byte_tags:
  fixes l :: "64 word"
  shows "uint l < 2 ^ 14 \<Longrightarrow> (ucast (drop_bit 8 l) OR (0x80 :: byte)) AND 0xC0 = 0x80"
    and "uint l < 2 ^ 21 \<Longrightarrow> (ucast (drop_bit 16 l) OR (0xC0 :: byte)) AND 0xE0 = 0xC0"
    and "uint l < 2 ^ 28 \<Longrightarrow> (ucast (drop_bit 24 l) OR (0xE0 :: byte)) AND 0xF0 = 0xE0"
    and "uint l < 2 ^ 7 \<Longrightarrow> (ucast l :: byte) AND 0x80 = 0"
proof -
  show "uint l < 2 ^ 14 \<Longrightarrow> (ucast (drop_bit 8 l) OR (0x80 :: byte)) AND 0xC0 = 0x80"
  proof (rule bit_word_eqI)
    fix n assume a: "uint l < 2 ^ 14"
    show "bit ((ucast (drop_bit 8 l) OR (0x80 :: byte)) AND 0xC0) n = bit (0x80 :: byte) n"
      using bit_below[OF a, of "8 + n"] by (simp only: bit_simps bit_consts) auto
  qed
  show "uint l < 2 ^ 21 \<Longrightarrow> (ucast (drop_bit 16 l) OR (0xC0 :: byte)) AND 0xE0 = 0xC0"
  proof (rule bit_word_eqI)
    fix n assume a: "uint l < 2 ^ 21"
    show "bit ((ucast (drop_bit 16 l) OR (0xC0 :: byte)) AND 0xE0) n = bit (0xC0 :: byte) n"
      using bit_below[OF a, of "16 + n"] by (simp only: bit_simps bit_consts) auto
  qed
  show "uint l < 2 ^ 28 \<Longrightarrow> (ucast (drop_bit 24 l) OR (0xE0 :: byte)) AND 0xF0 = 0xE0"
  proof (rule bit_word_eqI)
    fix n assume a: "uint l < 2 ^ 28"
    show "bit ((ucast (drop_bit 24 l) OR (0xE0 :: byte)) AND 0xF0) n = bit (0xE0 :: byte) n"
      using bit_below[OF a, of "24 + n"] by (simp only: bit_simps bit_consts) auto
  qed
  show "uint l < 2 ^ 7 \<Longrightarrow> (ucast l :: byte) AND 0x80 = 0"
  proof (rule bit_word_eqI)
    fix n assume a: "uint l < 2 ^ 7"
    show "bit ((ucast l :: byte) AND 0x80) n = bit (0 :: byte) n"
      using bit_below[OF a, of "n"] by (simp only: bit_simps bit_consts) auto
  qed
qed

lemma high_byte:
  fixes b :: byte
  assumes "b AND 0xF8 = 0xF8"
  shows "(ucast b :: int64) AND 0xF8 = 0xF8"
proof -
  have "(ucast b :: int64) AND 0xF8 = ucast (b AND 0xF8)"
    by (rule bit_word_eqI) (simp only: bit_simps bit_consts, auto)
  also have "\<dots> = 0xF8" by (simp add: assms)
  finally show ?thesis .
qed

lemma high_byte_range:
  fixes b :: byte
  assumes "b AND 0xF8 = 0xF8"
  shows "248 \<le> unat b \<and> unat b \<le> 255"
proof -
  have "b AND 0xF8 \<le> b" by (rule word_and_le2)
  then have "0xF8 \<le> b" by (simp add: assms)
  then have "248 \<le> unat b" by (simp add: word_le_nat_alt)
  moreover have "unat b < 256" using unsigned_less [of b, where ?'a = nat] by simp
  ultimately show ?thesis by simp
qed

lemma unat_ucast_byte: "unat (ucast (b :: byte) :: int64) = unat b"
proof -
  have "unat b < 2 ^ 8" using unsigned_less [of b, where ?'a = nat] by simp
  then have "unat b < 2 ^ 64" by simp
  then show ?thesis by (simp add: unsigned_ucast_eq take_bit_nat_eq_self)
qed

lemma value_two:
  fixes l :: "64 word"
  assumes "uint l < 2 ^ 14"
  shows "push_bit 8 ((ucast (ucast (drop_bit 8 l) OR (0x80 :: byte)) :: int64) AND NOT 0xC0)
         OR ucast (ucast l :: byte) = l" (is "?lhs = l")
proof (rule bit_word_eqI)
  fix n assume "n < LENGTH(64)"
  show "bit ?lhs n = bit l n"
    using bit_below[OF assms, of n]
    apply (simp only: bit_simps bit_consts)
    apply (simp cong: conj_cong)
    apply (cases "bit l n")
     apply simp_all
    apply arith+
    done
qed

lemma value_three:
  fixes l :: "64 word"
  assumes "uint l < 2 ^ 21"
  shows "push_bit 16 ((ucast (ucast (drop_bit 16 l) OR (0xC0 :: byte)) :: int64) AND NOT 0xE0)
         OR (push_bit 8 (ucast (ucast (drop_bit 8 l) :: byte)) OR ucast (ucast l :: byte)) = l"
    (is "?lhs = l")
proof (rule bit_word_eqI)
  fix n assume "n < LENGTH(64)"
  show "bit ?lhs n = bit l n"
    using bit_below[OF assms, of n]
    apply (simp only: bit_simps bit_consts)
    apply (simp cong: conj_cong)
    apply (cases "bit l n")
     apply simp_all
    apply arith+
    done
qed

lemma value_four:
  fixes l :: "64 word"
  assumes "uint l < 2 ^ 28"
  shows "push_bit 24 ((ucast (ucast (drop_bit 24 l) OR (0xE0 :: byte)) :: int64) AND NOT 0xF0)
         OR (push_bit 8 (push_bit 8 (ucast (ucast (drop_bit 16 l) :: byte))
                         OR ucast (ucast (drop_bit 8 l) :: byte))
             OR ucast (ucast l :: byte)) = l"
    (is "?lhs = l")
proof (rule bit_word_eqI)
  fix n assume "n < LENGTH(64)"
  show "bit ?lhs n = bit l n"
    using bit_below[OF assms, of n]
    apply (simp only: bit_simps bit_consts)
    apply (simp cong: conj_cong)
    apply (cases "bit l n")
     apply simp_all
    apply arith+
    done
qed

lemma value_five:
  fixes l :: "64 word"
  assumes "uint l < 2 ^ 32"
  shows "push_bit 8 (push_bit 8 (push_bit 8 (ucast (ucast (drop_bit 24 l) :: byte))
                                 OR ucast (ucast (drop_bit 16 l) :: byte))
                     OR ucast (ucast (drop_bit 8 l) :: byte))
         OR ucast (ucast l :: byte) = l"
    (is "?lhs = l")
proof (rule bit_word_eqI)
  fix n assume "n < LENGTH(64)"
  show "bit ?lhs n = bit l n"
    using bit_below[OF assms, of n]
    apply (simp only: bit_simps bit_consts)
    apply (simp cong: conj_cong)
    apply (cases "bit l n")
     apply simp_all
    apply arith+
    done
qed

lemma sless_bounds:
  fixes l :: "64 word"
  assumes "0 \<le>s l"
  shows "l <s 0x80 \<longleftrightarrow> uint l < 2 ^ 7"
    and "l <s 0x4000 \<longleftrightarrow> uint l < 2 ^ 14"
    and "l <s 0x200000 \<longleftrightarrow> uint l < 2 ^ 21"
    and "l <s 0x10000000 \<longleftrightarrow> uint l < 2 ^ 28"
    and "l <s 0x100000000 \<longleftrightarrow> uint l < 2 ^ 32"
proof -
  have s: "sint l = uint l" using assms by (rule sint_nonneg_eq_uint)
  show "l <s 0x80 \<longleftrightarrow> uint l < 2 ^ 7" by (simp add: word_sless_alt s)
  show "l <s 0x4000 \<longleftrightarrow> uint l < 2 ^ 14" by (simp add: word_sless_alt s)
  show "l <s 0x200000 \<longleftrightarrow> uint l < 2 ^ 21" by (simp add: word_sless_alt s)
  show "l <s 0x10000000 \<longleftrightarrow> uint l < 2 ^ 28" by (simp add: word_sless_alt s)
  show "l <s 0x100000000 \<longleftrightarrow> uint l < 2 ^ 32" by (simp add: word_sless_alt s)
qed

lemma encodeLength_nonneg:
  assumes "0 \<le>s l"
  shows "encodeLength l =
     (if uint l < 2 ^ 7 then [ucast l]
      else if uint l < 2 ^ 14 then [ucast (drop_bit 8 l) OR 0x80, ucast l]
      else if uint l < 2 ^ 21 then
        [ucast (drop_bit 16 l) OR 0xC0, ucast (drop_bit 8 l), ucast l]
      else if uint l < 2 ^ 28 then
        [ucast (drop_bit 24 l) OR 0xE0, ucast (drop_bit 16 l),
         ucast (drop_bit 8 l), ucast l]
      else
        [0xF0, ucast (drop_bit 24 l), ucast (drop_bit 16 l),
         ucast (drop_bit 8 l), ucast l])"
  by (simp only: encodeLength_def nonneg_signed_drop_bit [OF assms] sless_bounds [OF assms])

lemma readLength_encodeLength:
  assumes "0 \<le>s l" "l <s 0x100000000"
  shows "readLength d (r\<lparr>bufferedReader := encodeLength l @ rest\<rparr>)
         = (Inr l, r\<lparr>bufferedReader := rest, readDeadline := (d \<or> \<not> l <s 0x80)\<rparr>)"
proof -
  have u32: "uint l < 2 ^ 32" using assms(2) by (simp only: sless_bounds [OF assms(1)])
  have s7: "l <s 0x80 \<longleftrightarrow> uint l < 2 ^ 7" by (rule sless_bounds [OF assms(1)])
  consider (one) "uint l < 2 ^ 7"
    | (two) "\<not> uint l < 2 ^ 7" "uint l < 2 ^ 14"
    | (three) "\<not> uint l < 2 ^ 7" "\<not> uint l < 2 ^ 14" "uint l < 2 ^ 21"
    | (four) "\<not> uint l < 2 ^ 7" "\<not> uint l < 2 ^ 14" "\<not> uint l < 2 ^ 21" "uint l < 2 ^ 28"
    | (five) "\<not> uint l < 2 ^ 7" "\<not> uint l < 2 ^ 14" "\<not> uint l < 2 ^ 21" "\<not> uint l < 2 ^ 28"
    by blast
  then show ?thesis
  proof cases
    case one
    have enc: "encodeLength l = [ucast l]"
      by (simp only: encodeLength_nonneg [OF assms(1)] one if_True)
    show ?thesis
      by (simp only: enc append.simps readLength_one [OF tag_one [OF one]] value_one [OF one] s7 one)
         simp
  next
    case two
    have enc: "encodeLength l = [ucast (drop_bit 8 l) OR 0x80, ucast l]"
      by (simp only: encodeLength_nonneg [OF assms(1)] two if_True if_False)
    show ?thesis
      by (simp only: enc append.simps readLength_two [OF tag_two [OF two(2)]] value_two [OF two(2)]
            s7 two)
         simp
  next
    case three
    have enc: "encodeLength l = [ucast (drop_bit 16 l) OR 0xC0, ucast (drop_bit 8 l), ucast l]"
      by (simp only: encodeLength_nonneg [OF assms(1)] three if_True if_False)
    show ?thesis
      by (simp only: enc append.simps readLength_three [OF tag_three [OF three(3)]]
            value_three [OF three(3)] s7 three)
         simp
  next
    case four
    have enc: "encodeLength l = [ucast (drop_bit 24 l) OR 0xE0, ucast (drop_bit 16 l),
         ucast (drop_bit 8 l), ucast l]"
      by (simp only: encodeLength_nonneg [OF assms(1)] four if_True if_False)
    show ?thesis
      by (simp only: enc append.simps readLength_four [OF tag_four [OF four(4)]]
            value_four [OF four(4)] s7 four)
         simp
  next
    case five
    have enc: "encodeLength l = [0xF0, ucast (drop_bit 24 l), ucast (drop_bit 16 l),
         ucast (drop_bit 8 l), ucast l]"
      by (simp only: encodeLength_nonneg [OF assms(1)] five if_True if_False)
    have tag: "(ucast (0xF0 :: byte) :: int64) AND 0xF8 = 0xF0" by simp
    show ?thesis
      by (simp only: enc append.simps readLength_five [OF tag]
            value_five [OF u32] s7 five)
         simp
  qed
qed

lemma unat_byte_of:
  fixes l :: "64 word"
  shows "unat (ucast (drop_bit k l) :: byte) = unat l div 2 ^ k mod 256"
proof -
  have "unat (ucast (drop_bit k l) :: byte) = take_bit 8 (drop_bit k (unat l))"
    by (simp only: unsigned_ucast_eq unat_drop_bit_eq) simp
  then show ?thesis by (simp add: take_bit_eq_mod drop_bit_eq_div)
qed

lemma unat_low_byte:
  fixes l :: "64 word"
  shows "unat (ucast l :: byte) = unat l mod 256"
  by (simp add: unsigned_ucast_eq take_bit_eq_mod)

lemma masked_first:
  fixes l :: "64 word"
  shows "uint l < 2 ^ 14 \<Longrightarrow> (ucast (drop_bit 8 l) OR (0x80 :: byte)) AND NOT 0xC0 = ucast (drop_bit 8 l)"
    and "uint l < 2 ^ 21 \<Longrightarrow> (ucast (drop_bit 16 l) OR (0xC0 :: byte)) AND NOT 0xE0 = ucast (drop_bit 16 l)"
    and "uint l < 2 ^ 28 \<Longrightarrow> (ucast (drop_bit 24 l) OR (0xE0 :: byte)) AND NOT 0xF0 = ucast (drop_bit 24 l)"
proof -
  show "uint l < 2 ^ 14 \<Longrightarrow> (ucast (drop_bit 8 l) OR (0x80 :: byte)) AND NOT 0xC0 = ucast (drop_bit 8 l)"
  proof (rule bit_word_eqI)
    fix n assume a: "uint l < 2 ^ 14"
    show "bit ((ucast (drop_bit 8 l) OR (0x80 :: byte)) AND NOT 0xC0) n = bit (ucast (drop_bit 8 l) :: byte) n"
      using bit_below[OF a, of "8 + n"] by (simp only: bit_simps bit_consts) auto
  qed
  show "uint l < 2 ^ 21 \<Longrightarrow> (ucast (drop_bit 16 l) OR (0xC0 :: byte)) AND NOT 0xE0 = ucast (drop_bit 16 l)"
  proof (rule bit_word_eqI)
    fix n assume a: "uint l < 2 ^ 21"
    show "bit ((ucast (drop_bit 16 l) OR (0xC0 :: byte)) AND NOT 0xE0) n = bit (ucast (drop_bit 16 l) :: byte) n"
      using bit_below[OF a, of "16 + n"] by (simp only: bit_simps bit_consts) auto
  qed
  show "uint l < 2 ^ 28 \<Longrightarrow> (ucast (drop_bit 24 l) OR (0xE0 :: byte)) AND NOT 0xF0 = ucast (drop_bit 24 l)"
  proof (rule bit_word_eqI)
    fix n assume a: "uint l < 2 ^ 28"
    show "bit ((ucast (drop_bit 24 l) OR (0xE0 :: byte)) AND NOT 0xF0) n = bit (ucast (drop_bit 24 l) :: byte) n"
      using bit_below[OF a, of "24 + n"] by (simp only: bit_simps bit_consts) auto
  qed
qed

lemma big_endian_four:
  fixes n :: nat
  assumes "n < 2 ^ 32"
  shows "(((n div 2 ^ 24 mod 256) * 256 + n div 2 ^ 16 mod 256) * 256 + n div 2 ^ 8 mod 256) * 256
         + n mod 256 = n"
proof -
  define a where "a = n div 256"
  have d: "n div 2 ^ 8 = a" "n div 2 ^ 16 = a div 256" "n div 2 ^ 24 = a div 256 div 256"
    by (simp_all add: a_def div_mult2_eq)
  have "n div 2 ^ 24 < 256" using assms by (simp add: less_mult_imp_div_less)
  then have "a div 256 div 256 < 256" by (simp only: d)
  then have top: "a div 256 div 256 mod 256 = a div 256 div 256" by simp
  have "(((a div 256 div 256) * 256 + a div 256 mod 256) * 256 + a mod 256) * 256 + n mod 256
        = (a div 256 * 256 + a mod 256) * 256 + n mod 256"
    by (simp only: div_mult_mod_eq)
  also have "\<dots> = a * 256 + n mod 256" by (simp only: div_mult_mod_eq)
  also have "\<dots> = n" by (simp only: a_def div_mult_mod_eq)
  finally show ?thesis by (simp only: d top)
qed

lemma big_endian_three:
  fixes n :: nat
  assumes "n < 2 ^ 21"
  shows "((n div 2 ^ 16 mod 256) * 256 + n div 2 ^ 8 mod 256) * 256 + n mod 256 = n"
proof -
  define a where "a = n div 256"
  have d: "n div 2 ^ 8 = a" "n div 2 ^ 16 = a div 256"
    by (simp_all add: a_def div_mult2_eq)
  have "n div 2 ^ 16 < 256" using assms by (simp add: less_mult_imp_div_less)
  then have "a div 256 < 256" by (simp only: d)
  then have top: "a div 256 mod 256 = a div 256" by simp
  have "(a div 256 * 256 + a mod 256) * 256 + n mod 256 = a * 256 + n mod 256"
    by (simp only: div_mult_mod_eq)
  also have "\<dots> = n" by (simp only: a_def div_mult_mod_eq)
  finally show ?thesis by (simp only: d top)
qed

lemma big_endian_two:
  fixes n :: nat
  assumes "n < 2 ^ 14"
  shows "(n div 2 ^ 8 mod 256) * 256 + n mod 256 = n"
proof -
  have "n div 2 ^ 8 < 256" using assms by (simp add: less_mult_imp_div_less)
  then have top: "n div 2 ^ 8 mod 256 = n div 256" by simp
  show ?thesis by (simp only: top div_mult_mod_eq)
qed

lemma uint_unat_less:
  fixes l :: "'a::len word"
  shows "uint l < 2 ^ m \<longleftrightarrow> unat l < 2 ^ m"
proof -
  have "(int (unat l) < int (2 ^ m)) = (unat l < 2 ^ m)" by (rule of_nat_less_iff)
  then show ?thesis by simp
qed

lemma masked_low:
  fixes l :: "64 word"
  assumes "uint l < 2 ^ 7"
  shows "(ucast l :: byte) AND NOT 0x80 = ucast l"
proof (rule bit_word_eqI)
  fix n
  show "bit ((ucast l :: byte) AND NOT 0x80) n = bit (ucast l :: byte) n"
    using bit_below[OF assms, of "n"] by (simp only: bit_simps bit_consts) auto
qed

lemma big_endian_bytes:
  fixes l :: "64 word"
  shows "big_endian [ucast l] = unat l mod 256"
    and "big_endian [ucast (drop_bit 8 l), ucast l]
         = (unat l div 2 ^ 8 mod 256) * 256 + unat l mod 256"
    and "big_endian [ucast (drop_bit 16 l), ucast (drop_bit 8 l), ucast l]
         = ((unat l div 2 ^ 16 mod 256) * 256 + unat l div 2 ^ 8 mod 256) * 256 + unat l mod 256"
    and "big_endian [ucast (drop_bit 24 l), ucast (drop_bit 16 l), ucast (drop_bit 8 l), ucast l]
         = (((unat l div 2 ^ 24 mod 256) * 256 + unat l div 2 ^ 16 mod 256) * 256
            + unat l div 2 ^ 8 mod 256) * 256 + unat l mod 256"
    and "big_endian [0, ucast (drop_bit 24 l), ucast (drop_bit 16 l), ucast (drop_bit 8 l),
           ucast l]
         = (((unat l div 2 ^ 24 mod 256) * 256 + unat l div 2 ^ 16 mod 256) * 256
            + unat l div 2 ^ 8 mod 256) * 256 + unat l mod 256"
  unfolding big_endian_def foldl.simps
  by (simp_all only: unat_byte_of) (simp_all only: unat_low_byte, simp_all)

lemma encodeLength_layout:
  assumes "0 \<le>s l" "l <s 0x100000000"
  shows "length (encodeLength l) = documented_size (unat l)
       \<and> hd (encodeLength l) AND marker_mask (unat l) = marker_bits (unat l)
       \<and> big_endian ((hd (encodeLength l) AND NOT (marker_mask (unat l))) # tl (encodeLength l))
           = unat l"
proof -
  have u32: "uint l < 2 ^ 32" using assms(2) by (simp only: sless_bounds [OF assms(1)])
  then have n32: "unat l < 2 ^ 32" by (simp only: uint_unat_less)
  consider (one) "uint l < 2 ^ 7"
    | (two) "\<not> uint l < 2 ^ 7" "uint l < 2 ^ 14"
    | (three) "\<not> uint l < 2 ^ 7" "\<not> uint l < 2 ^ 14" "uint l < 2 ^ 21"
    | (four) "\<not> uint l < 2 ^ 7" "\<not> uint l < 2 ^ 14" "\<not> uint l < 2 ^ 21" "uint l < 2 ^ 28"
    | (five) "\<not> uint l < 2 ^ 7" "\<not> uint l < 2 ^ 14" "\<not> uint l < 2 ^ 21" "\<not> uint l < 2 ^ 28"
    by blast
  then show ?thesis
  proof cases
    case one
    have enc: "encodeLength l = [ucast l]"
      by (simp only: encodeLength_nonneg [OF assms(1)] one if_True)
    have n: "unat l < 128" using one by (simp only: uint_unat_less) simp
    have cls: "documented_size (unat l) = 1" "marker_mask (unat l) = 0x80"
      "marker_bits (unat l) = 0"
      using n by (simp_all add: documented_size_def marker_mask_def marker_bits_def)
    have "big_endian [ucast l :: byte] = unat l"
      using n by (simp only: big_endian_bytes) simp
    then show ?thesis
      by (simp only: enc cls list.sel byte_tags(4) [OF one] masked_low [OF one]) simp
  next
    case two
    have enc: "encodeLength l = [ucast (drop_bit 8 l) OR 0x80, ucast l]"
      by (simp only: encodeLength_nonneg [OF assms(1)] two if_True if_False)
    have n: "\<not> unat l < 128" "unat l < 2 ^ 14"
      using two by (simp_all only: uint_unat_less) simp_all
    have cls: "documented_size (unat l) = 2" "marker_mask (unat l) = 0xC0"
      "marker_bits (unat l) = 0x80"
      using n by (simp_all add: documented_size_def marker_mask_def marker_bits_def)
    have "big_endian [ucast (drop_bit 8 l) :: byte, ucast l] = unat l"
      by (simp only: big_endian_bytes big_endian_two [OF n(2)])
    then show ?thesis
      by (simp only: enc cls list.sel byte_tags(1) [OF two(2)] masked_first(1) [OF two(2)]) simp
  next
    case three
    have enc: "encodeLength l = [ucast (drop_bit 16 l) OR 0xC0, ucast (drop_bit 8 l), ucast l]"
      by (simp only: encodeLength_nonneg [OF assms(1)] three if_True if_False)
    have n: "\<not> unat l < 128" "\<not> unat l < 2 ^ 14" "unat l < 2 ^ 21"
      using three by (simp_all only: uint_unat_less) simp_all
    have cls: "documented_size (unat l) = 3" "marker_mask (unat l) = 0xE0"
      "marker_bits (unat l) = 0xC0"
      using n by (simp_all add: documented_size_def marker_mask_def marker_bits_def)
    have "big_endian [ucast (drop_bit 16 l) :: byte, ucast (drop_bit 8 l), ucast l] = unat l"
      by (simp only: big_endian_bytes big_endian_three [OF n(3)])
    then show ?thesis
      by (simp only: enc cls list.sel byte_tags(2) [OF three(3)] masked_first(2) [OF three(3)])
         simp
  next
    case four
    have enc: "encodeLength l = [ucast (drop_bit 24 l) OR 0xE0, ucast (drop_bit 16 l),
         ucast (drop_bit 8 l), ucast l]"
      by (simp only: encodeLength_nonneg [OF assms(1)] four if_True if_False)
    have n: "\<not> unat l < 128" "\<not> unat l < 2 ^ 14" "\<not> unat l < 2 ^ 21" "unat l < 2 ^ 28"
      using four by (simp_all only: uint_unat_less) simp_all
    have cls: "documented_size (unat l) = 4" "marker_mask (unat l) = 0xF0"
      "marker_bits (unat l) = 0xE0"
      using n by (simp_all add: documented_size_def marker_mask_def marker_bits_def)
    have "big_endian [ucast (drop_bit 24 l) :: byte, ucast (drop_bit 16 l),
            ucast (drop_bit 8 l), ucast l] = unat l"
      by (simp only: big_endian_bytes big_endian_four [OF n32])
    then show ?thesis
      by (simp only: enc cls list.sel byte_tags(3) [OF four(4)] masked_first(3) [OF four(4)])
         simp
  next
    case five
    have enc: "encodeLength l = [0xF0, ucast (drop_bit 24 l), ucast (drop_bit 16 l),
         ucast (drop_bit 8 l), ucast l]"
      by (simp only: encodeLength_nonneg [OF assms(1)] five if_True if_False)
    have n: "\<not> unat l < 128" "\<not> unat l < 2 ^ 14" "\<not> unat l < 2 ^ 21" "\<not> unat l < 2 ^ 28"
      using five by (simp_all only: uint_unat_less) simp_all
    have cls: "documented_size (unat l) = 5" "marker_mask (unat l) = 0xFF"
      "marker_bits (unat l) = 0xF0"
      using n by (simp_all add: documented_size_def marker_mask_def marker_bits_def)
    have m: "(0xF0 :: byte) AND 0xFF = 0xF0" "(0xF0 :: byte) AND NOT 0xFF = 0" by simp_all
    have "big_endian [0 :: byte, ucast (drop_bit 24 l), ucast (drop_bit 16 l),
            ucast (drop_bit 8 l), ucast l] = unat l"
      by (simp only: big_endian_bytes big_endian_four [OF n32])
    then show ?thesis
      by (simp only: enc cls list.sel m) simp
  qed
qed

section \<open>The length prefix: encoding and decoding\<close>

text \<open>
  C1. For every length \<open>l\<close> with \<open>0 \<le> l < 2^32\<close> (which covers every length up to
  \<open>0x10000080\<close>), \<open>readLength\<close> on the bytes of \<open>encodeLength l\<close>, followed by any
  further input, returns \<open>l\<close> and leaves exactly the further input unread. The prefix
  has the documented number of bytes for the size class of \<open>l\<close>, its first byte opens
  with the marker bits of that class (none, \<open>10\<close>, \<open>110\<close>, \<open>1110\<close>, or the whole byte
  \<open>0xF0\<close>), and with the marker bits masked out of the first byte the prefix is \<open>l\<close> in
  big-endian order.
\<close>

theorem encodeLength_roundtrip:
  assumes "0 \<le>s l" and "l <s 0x100000000"
  shows "readLength d (r\<lparr>bufferedReader := encodeLength l @ rest\<rparr>)
           = (Inr l, r\<lparr>bufferedReader := rest, readDeadline := (d \<or> \<not> l <s 0x80)\<rparr>)
       \<and> length (encodeLength l) = documented_size (unat l)
       \<and> hd (encodeLength l) AND marker_mask (unat l) = marker_bits (unat l)
       \<and> big_endian ((hd (encodeLength l) AND NOT (marker_mask (unat l))) # tl (encodeLength l))
           = unat l"
  using readLength_encodeLength [OF assms] encodeLength_layout [OF assms] by simp

theorem encodeLength_roundtrip_witness:
  "(0 :: goint) \<le>s 0x10000080 \<and> (0x10000080 :: goint) <s 0x100000000
   \<and> encodeLength 0x10000080 = [0xF0, 0x10, 0x00, 0x00, 0x80]
   \<and> readLength False
        \<lparr>bufferedReader = [0xF0, 0x10, 0x00, 0x00, 0x80, 0x21], readDeadline = False\<rparr>
       = (Inr 0x10000080, \<lparr>bufferedReader = [0x21], readDeadline = True\<rparr>)
   \<and> documented_size (unat (0x10000080 :: goint)) = 5"
proof -
  have h1: "(0 :: goint) \<le>s 0x10000080" by (simp add: word_sle_eq)
  have h2: "(0x10000080 :: goint) <s 0x100000000" by (simp add: word_sless_alt)
  have h3: "\<not> (0x10000080 :: goint) <s 0x80" by (simp add: word_sless_alt)
  have enc: "encodeLength 0x10000080 = [0xF0, 0x10, 0x00, 0x00, 0x80]"
    by (simp add: encodeLength_def word_sless_alt)
  have sz: "documented_size (unat (0x10000080 :: goint)) = 5"
    by (simp add: documented_size_def)
  show ?thesis
    using h1 h2 h3 enc sz
      encodeLength_roundtrip [OF h1 h2, where d = False
        and r = "\<lparr>bufferedReader = [], readDeadline = False\<rparr>" and rest = "[0x21]"]
    by simp
qed

text \<open>
  C8. A first length byte whose top five bits are all set (\<open>0xF8\<close> to \<open>0xFF\<close>) matches
  none of the five cases of \<open>readLength\<close>: the byte alone is used up, no continuation
  byte is read, and its own value, between 248 and 255, is returned as the length,
  without an error.
\<close>

theorem readLength_top_five_bits:
  assumes "b AND 0xF8 = 0xF8"
  shows "readLength d (r\<lparr>bufferedReader := b # rest\<rparr>)
           = (Inr (ucast b), r\<lparr>bufferedReader := rest, readDeadline := d\<rparr>)
       \<and> 248 \<le> unat (ucast b :: int64) \<and> unat (ucast b :: int64) \<le> 255
       \<and> (ucast b :: int64) AND 0x80 \<noteq> 0x00 \<and> (ucast b :: int64) AND 0xC0 \<noteq> 0x80
       \<and> (ucast b :: int64) AND 0xE0 \<noteq> 0xC0 \<and> (ucast b :: int64) AND 0xF0 \<noteq> 0xE0
       \<and> (ucast b :: int64) AND 0xF8 \<noteq> 0xF0"
proof -
  have f8: "(ucast b :: int64) AND 0xF8 = 0xF8" using assms by (rule high_byte)
  have f: "(ucast b :: int64) AND 0xF0 = 0xF0"
    by (subst and_0xF0_of_0xF8) (simp add: f8)
  have e: "(ucast b :: int64) AND 0xE0 = 0xE0"
    by (subst and_0xE0_of_0xF0) (simp add: f)
  have c: "(ucast b :: int64) AND 0xC0 = 0xC0"
    by (subst and_0xC0_of_0xE0) (simp add: e)
  have a: "(ucast b :: int64) AND 0x80 = 0x80"
    by (subst and_0x80_of_0xC0) (simp add: c)
  show ?thesis
    using readLength_unmarked [OF f8] high_byte_range [OF assms]
    by (simp add: unat_ucast_byte a c e f f8)
qed

theorem readLength_top_five_bits_witness:
  "(0xFB :: byte) AND 0xF8 = 0xF8
   \<and> readLength True \<lparr>bufferedReader = [0xFB, 0x01, 0x02], readDeadline = False\<rparr>
       = (Inr 251, \<lparr>bufferedReader = [0x01, 0x02], readDeadline = True\<rparr>)"
proof -
  have h: "(0xFB :: byte) AND 0xF8 = 0xF8" by simp
  show ?thesis
    using h readLength_top_five_bits [OF h, where d = True
        and r = "\<lparr>bufferedReader = [], readDeadline = False\<rparr>" and rest = "[0x01, 0x02]"]
    by simp
qed

section \<open>Reading sentences\<close>

lemma unat_of_char: "unat (of_char c :: byte) = of_char c"
proof -
  have "(of_char c :: nat) < 256" by simp
  then have "unat (of_nat (of_char c) :: byte) = of_char c"
    by (simp add: unat_of_nat)
  then show ?thesis by (simp only: of_nat_of_char)
qed

lemma string_of_bytes_of [simp]: "string_of (bytes_of s) = s"
  by (induction s) (simp_all add: string_of_def bytes_of_def unat_of_char)

lemma bytes_of_append: "bytes_of (s @ t) = bytes_of s @ bytes_of t"
  by (simp add: bytes_of_def)

lemma length_bytes_of [simp]: "length (bytes_of s) = length s"
  by (simp add: bytes_of_def)

lemma of_char_eq_iff_byte: "(of_char c :: byte) = of_char c' \<longleftrightarrow> c = c'"
proof
  assume "(of_char c :: byte) = of_char c'"
  then have "unat (of_char c :: byte) = unat (of_char c' :: byte)" by simp
  then have "(of_char c :: nat) = of_char c'" by (simp only: unat_of_char)
  then show "c = c'" by simp
qed simp

lemma length_as_goint:
  assumes "n < 2 ^ 32"
  shows "(0 :: goint) \<le>s of_nat n" and "(of_nat n :: goint) <s 0x100000000"
    and "unat (of_nat n :: goint) = n"
proof -
  have n64: "n < 2 ^ 64" using assms by simp
  show u: "unat (of_nat n :: goint) = n" using n64 by (simp add: unat_of_nat)
  have "uint (of_nat n :: goint) = int n" using u by (metis uint_nat)
  then have ui: "uint (of_nat n :: goint) < 2 ^ 32" using assms by simp
  then have nb: "\<not> bit (of_nat n :: goint) 63" by (rule upper_bits_unset) simp
  then have "\<not> sint (of_nat n :: goint) < 0" using bit_last_iff [of "of_nat n :: goint"] by simp
  then show nn: "(0 :: goint) \<le>s of_nat n" by (simp add: word_sle_eq)
  show "(of_nat n :: goint) <s 0x100000000"
    using ui by (simp only: sless_bounds [OF nn])
qed

lemma readWord_wire:
  assumes "length w < 2 ^ 32"
  shows "readWord d (r\<lparr>bufferedReader := encodeLength (of_nat (length w)) @ w @ rest\<rparr>)
         = (Inr w, r\<lparr>bufferedReader := rest, readDeadline := True\<rparr>)"
proof -
  note g = length_as_goint [OF assms]
  have "readLength d (r\<lparr>bufferedReader := encodeLength (of_nat (length w)) @ (w @ rest)\<rparr>)
        = (Inr (of_nat (length w)),
           r\<lparr>bufferedReader := w @ rest,
             readDeadline := (d \<or> \<not> (of_nat (length w) :: goint) <s 0x80)\<rparr>)"
    using g(1) g(2) by (rule readLength_encodeLength)
  then show ?thesis
    by (simp add: readWord_def g(3) readFull_def setDeadline_def Let_def)
qed

lemma loop_end:
  assumes "readWord d r = (Inr [], r1)"
  shows "ReadSentence_loop d sen r = (Inr sen, r1)"
  by (subst ReadSentence_loop.simps) (simp add: assms)

lemma loop_error:
  assumes "readWord d r = (Inl e, r1)"
  shows "ReadSentence_loop d sen r = (Inl e, r1)"
  by (subst ReadSentence_loop.simps) (simp add: assms)

lemma loop_verb:
  assumes "readWord d r = (Inr b, r1)" "b \<noteq> []" "Word sen = []"
  shows "ReadSentence_loop d sen r = ReadSentence_loop d (sen\<lparr>Word := string_of b\<rparr>) r1"
  by (subst ReadSentence_loop.simps) (simp add: assms)

lemma loop_tag:
  assumes "readWord d r = (Inr b, r1)" "Word sen \<noteq> []" "prefix (bytes_of ''.tag='') b"
  shows "ReadSentence_loop d sen r = ReadSentence_loop d (sen\<lparr>Tag := string_of (drop 5 b)\<rparr>) r1"
proof -
  have "b \<noteq> []" using assms(3) by (auto simp: bytes_of_def)
  then show ?thesis
    by (subst ReadSentence_loop.simps) (simp add: assms)
qed

lemma loop_pair:
  assumes "readWord d r = (Inr b, r1)" "Word sen \<noteq> []" "\<not> prefix (bytes_of ''.tag='') b"
    "prefix (bytes_of ''='') b"
  shows "ReadSentence_loop d sen r =
         (let t = SplitN2 (drop 1 b) (of_char CHR ''='');
              t = (if length t = 1 then t @ [[]] else t);
              p = \<lparr>Key = string_of (t ! 0), Value = string_of (t ! 1)\<rparr>
          in ReadSentence_loop d
               (sen\<lparr>List := List sen @ [p], Map := (Map sen)(Key p \<mapsto> Value p)\<rparr>) r1)"
proof -
  have "b \<noteq> []" using assms(4) by (auto simp: bytes_of_def)
  then show ?thesis
    by (subst ReadSentence_loop.simps) (simp add: assms)
qed

lemma loop_invalid:
  assumes "readWord d r = (Inr b, r1)" "b \<noteq> []" "Word sen \<noteq> []"
    "\<not> prefix (bytes_of ''.tag='') b" "\<not> prefix (bytes_of ''='') b"
  shows "ReadSentence_loop d sen r = (Inl (InvalidSentenceWord b), r1)"
  by (subst ReadSentence_loop.simps) (simp add: assms)

lemma SplitN2_two:
  assumes "sep \<notin> set k"
  shows "SplitN2 (k @ sep # v) sep = [k, v]"
proof -
  have "dropWhile (\<lambda>x. x \<noteq> sep) (k @ sep # v) = sep # v"
    using assms by (auto simp add: dropWhile_append3)
  moreover have "takeWhile (\<lambda>x. x \<noteq> sep) (k @ sep # v) = k"
    using assms by (auto simp add: takeWhile_tail)
  ultimately show ?thesis by (simp add: SplitN2_def)
qed

lemma SplitN2_one:
  assumes "sep \<notin> set k"
  shows "SplitN2 k sep = [k]"
proof -
  have "\<forall>x\<in>set k. x \<noteq> sep" using assms by auto
  then have "dropWhile (\<lambda>x. x \<noteq> sep) k = []" by (simp only: dropWhile_eq_Nil_conv)
  then show ?thesis by (simp only: SplitN2_def list.case)
qed

lemma bytes_of_notin:
  assumes "c \<notin> set k"
  shows "(of_char c :: byte) \<notin> set (bytes_of k)"
  using assms by (auto simp: bytes_of_def of_char_eq_iff_byte)

lemma no_tag_prefix: "\<not> prefix (bytes_of ''.tag='') (bytes_of (CHR ''='' # s))"
  by (simp add: bytes_of_def of_char_eq_iff_byte)

lemma loop_key_value:
  assumes "readWord d r = (Inr (bytes_of (''='' @ k @ ''='' @ v)), r1)" "Word sen \<noteq> []"
    "CHR ''='' \<notin> set k"
  shows "ReadSentence_loop d sen r =
         ReadSentence_loop d
           (sen\<lparr>List := List sen @ [\<lparr>Key = k, Value = v\<rparr>], Map := (Map sen)(k \<mapsto> v)\<rparr>) r1"
proof -
  let ?b = "bytes_of (''='' @ k @ ''='' @ v)"
  have np: "\<not> prefix (bytes_of ''.tag='') ?b" using no_tag_prefix [of "k @ ''='' @ v"] by simp
  have p: "prefix (bytes_of ''='') ?b" by (simp add: bytes_of_def)
  have d: "drop 1 ?b = bytes_of k @ of_char CHR ''='' # bytes_of v" by (simp add: bytes_of_def)
  have s: "SplitN2 (drop 1 ?b) (of_char CHR ''='') = [bytes_of k, bytes_of v]"
    unfolding d using bytes_of_notin [OF assms(3)] by (rule SplitN2_two)
  show ?thesis
    by (simp only: loop_pair [OF assms(1,2) np p] s) (simp add: Let_def)
qed

lemma loop_key_only:
  assumes "readWord d r = (Inr (bytes_of (''='' @ k)), r1)" "Word sen \<noteq> []"
    "CHR ''='' \<notin> set k"
  shows "ReadSentence_loop d sen r =
         ReadSentence_loop d
           (sen\<lparr>List := List sen @ [\<lparr>Key = k, Value = []\<rparr>], Map := (Map sen)(k \<mapsto> [])\<rparr>) r1"
proof -
  let ?b = "bytes_of (''='' @ k)"
  have np: "\<not> prefix (bytes_of ''.tag='') ?b" using no_tag_prefix [of "k"] by simp
  have p: "prefix (bytes_of ''='') ?b" by (simp add: bytes_of_def)
  have d: "drop 1 ?b = bytes_of k" by (simp add: bytes_of_def)
  have s: "SplitN2 (drop 1 ?b) (of_char CHR ''='') = [bytes_of k]"
    unfolding d using bytes_of_notin [OF assms(3)] by (rule SplitN2_one)
  have e: "string_of [] = []" by (simp add: string_of_def)
  show ?thesis
    by (simp only: loop_pair [OF assms(1,2) np p] s) (simp add: Let_def e)
qed

lemma loop_tag_suffix:
  assumes "readWord d r = (Inr (bytes_of (''.tag='' @ t)), r1)" "Word sen \<noteq> []"
  shows "ReadSentence_loop d sen r = ReadSentence_loop d (sen\<lparr>Tag := t\<rparr>) r1"
proof -
  let ?b = "bytes_of (''.tag='' @ t)"
  have p: "prefix (bytes_of ''.tag='') ?b" by (simp add: bytes_of_def)
  have d: "drop 5 ?b = bytes_of t" by (simp add: bytes_of_def)
  show ?thesis by (simp only: loop_tag [OF assms(1,2) p] d string_of_bytes_of)
qed

lemma readWord_wire_word:
  assumes "length s < 2 ^ 32"
  shows "readWord d \<lparr>bufferedReader = wire_word s @ rest, readDeadline = a\<rparr>
         = (Inr (bytes_of s), \<lparr>bufferedReader = rest, readDeadline = True\<rparr>)"
  using readWord_wire [where w = "bytes_of s" and d = d and rest = rest
      and r = "\<lparr>bufferedReader = [], readDeadline = a\<rparr>"] assms
  by (simp add: wire_word_def)

lemma bytes_of_Nil [simp]: "bytes_of [] = []"
  by (simp add: bytes_of_def)

lemma bytes_of_eq_Nil [simp]: "bytes_of s = [] \<longleftrightarrow> s = []"
  by (simp add: bytes_of_def)

lemma example_sentence:
  "ReadSentence d \<lparr>bufferedReader =
       wire_word ''!re'' @ wire_word ''.tag=r1'' @ wire_word ''=name=value'' @ wire_word []
       @ rest, readDeadline = a\<rparr>
   = (Inr \<lparr>Word = ''!re'', Tag = ''r1'', List = [\<lparr>Key = ''name'', Value = ''value''\<rparr>],
           Map = [''name'' \<mapsto> ''value'']\<rparr>,
      \<lparr>bufferedReader = rest, readDeadline = True\<rparr>)"
proof -
  let ?r0 = "\<lparr>bufferedReader = wire_word ''!re'' @ wire_word ''.tag=r1''
                 @ wire_word ''=name=value'' @ wire_word [] @ rest, readDeadline = a\<rparr>"
  let ?r1 = "\<lparr>bufferedReader = wire_word ''.tag=r1'' @ wire_word ''=name=value''
                 @ wire_word [] @ rest, readDeadline = True\<rparr>"
  let ?r2 = "\<lparr>bufferedReader = wire_word ''=name=value'' @ wire_word [] @ rest,
                 readDeadline = True\<rparr>"
  let ?r3 = "\<lparr>bufferedReader = wire_word [] @ rest, readDeadline = True\<rparr>"
  let ?r4 = "\<lparr>bufferedReader = rest, readDeadline = True\<rparr>"
  let ?s1 = "NewSentence\<lparr>Word := ''!re''\<rparr>"
  let ?s2 = "?s1\<lparr>Tag := ''r1''\<rparr>"
  let ?s3 = "?s2\<lparr>List := List ?s2 @ [\<lparr>Key = ''name'', Value = ''value''\<rparr>],
                 Map := (Map ?s2)(''name'' \<mapsto> ''value'')\<rparr>"
  have w1: "readWord d ?r0 = (Inr (bytes_of ''!re''), ?r1)"
    by (rule readWord_wire_word) simp
  have "readWord d ?r1 = (Inr (bytes_of ''.tag=r1''), ?r2)"
    by (rule readWord_wire_word) simp
  then have w2: "readWord d ?r1 = (Inr (bytes_of (''.tag='' @ ''r1'')), ?r2)" by simp
  have "readWord d ?r2 = (Inr (bytes_of ''=name=value''), ?r3)"
    by (rule readWord_wire_word) simp
  then have w3: "readWord d ?r2 = (Inr (bytes_of (''='' @ ''name'' @ ''='' @ ''value'')), ?r3)"
    by simp
  have "readWord d ?r3 = (Inr (bytes_of []), ?r4)"
    by (rule readWord_wire_word) simp
  then have w4: "readWord d ?r3 = (Inr [], ?r4)" by simp
  have "ReadSentence d ?r0 = ReadSentence_loop d ?s1 ?r1"
    unfolding ReadSentence_def
    using loop_verb [OF w1, of NewSentence] by (simp add: NewSentence_def)
  also have "\<dots> = ReadSentence_loop d ?s2 ?r2"
    by (rule loop_tag_suffix [OF w2]) (simp add: NewSentence_def)
  also have "\<dots> = ReadSentence_loop d ?s3 ?r3"
    by (rule loop_key_value [OF w3]) (simp_all add: NewSentence_def)
  also have "\<dots> = (Inr ?s3, ?r4)"
    by (rule loop_end [OF w4])
  finally show ?thesis by (simp add: NewSentence_def)
qed

lemma prefix_bytes_of: "prefix (bytes_of p) (bytes_of s) \<longleftrightarrow> prefix p s"
proof (induction p arbitrary: s)
  case Nil
  show ?case by simp
next
  case (Cons c p)
  show ?case
  proof (cases s)
    case Nil
    then show ?thesis by (simp add: bytes_of_def)
  next
    case (Cons c' s')
    have "prefix (bytes_of p) (bytes_of s') \<longleftrightarrow> prefix p s'" by (rule Cons.IH)
    then show ?thesis
      using Cons by (simp add: bytes_of_def of_char_eq_iff_byte)
  qed
qed

text \<open>
  C2. The stream of the four words \<open>!re\<close>, \<open>.tag=r1\<close>, \<open>=name=value\<close> and the empty
  word, whatever follows it and whatever the deadline flag, is read by \<open>ReadSentence\<close>
  without error as the sentence with verb \<open>!re\<close>, tag \<open>r1\<close> and the one pair
  \<open>(name, value)\<close>. In general, at any point of the loop: an empty word ends the
  sentence; a non-empty word read while the verb is still empty becomes the verb; once
  the verb is set, a word \<open>.tag=t\<close> sets the tag to \<open>t\<close>, a word \<open>=k=v\<close> with no
  \<open>=\<close> in \<open>k\<close> adds the pair \<open>(k, v)\<close> to the list and the mapping, and a word
  \<open>=k\<close> with no further \<open>=\<close> adds the pair of \<open>k\<close> and the empty value.
\<close>

theorem ReadSentence_words:
  "ReadSentence d \<lparr>bufferedReader =
       wire_word ''!re'' @ wire_word ''.tag=r1'' @ wire_word ''=name=value'' @ wire_word []
       @ rest, readDeadline = a\<rparr>
     = (Inr \<lparr>Word = ''!re'', Tag = ''r1'', List = [\<lparr>Key = ''name'', Value = ''value''\<rparr>],
             Map = [''name'' \<mapsto> ''value'']\<rparr>,
        \<lparr>bufferedReader = rest, readDeadline = True\<rparr>)
   \<and> (readWord d r = (Inr [], r1) \<longrightarrow> ReadSentence_loop d sen r = (Inr sen, r1))
   \<and> (readWord d r = (Inr b, r1) \<and> b \<noteq> [] \<and> Word sen = [] \<longrightarrow>
        ReadSentence_loop d sen r = ReadSentence_loop d (sen\<lparr>Word := string_of b\<rparr>) r1)
   \<and> (readWord d r = (Inr (bytes_of (''.tag='' @ t)), r1) \<and> Word sen \<noteq> [] \<longrightarrow>
        ReadSentence_loop d sen r = ReadSentence_loop d (sen\<lparr>Tag := t\<rparr>) r1)
   \<and> (readWord d r = (Inr (bytes_of (''='' @ k @ ''='' @ v)), r1) \<and> Word sen \<noteq> []
        \<and> CHR ''='' \<notin> set k \<longrightarrow>
        ReadSentence_loop d sen r =
        ReadSentence_loop d
          (sen\<lparr>List := List sen @ [\<lparr>Key = k, Value = v\<rparr>], Map := (Map sen)(k \<mapsto> v)\<rparr>) r1)
   \<and> (readWord d r = (Inr (bytes_of (''='' @ k)), r1) \<and> Word sen \<noteq> []
        \<and> CHR ''='' \<notin> set k \<longrightarrow>
        ReadSentence_loop d sen r =
        ReadSentence_loop d
          (sen\<lparr>List := List sen @ [\<lparr>Key = k, Value = []\<rparr>], Map := (Map sen)(k \<mapsto> [])\<rparr>) r1)"
  using example_sentence [of d rest a] loop_end [of d r r1 sen] loop_verb [of d r b r1 sen]
    loop_tag_suffix [of d r t r1 sen] loop_key_value [of d r k v r1 sen]
    loop_key_only [of d r k r1 sen]
  by blast

theorem ReadSentence_words_witness:
  "ReadSentence_loop False \<lparr>Word = [], Tag = [], List = [], Map = Map.empty\<rparr>
      \<lparr>bufferedReader = wire_word ''!done'' @ wire_word ''.tag=r7'' @ wire_word ''=ret=ab=c''
         @ wire_word ''=x'' @ wire_word [], readDeadline = False\<rparr>
   = (Inr \<lparr>Word = ''!done'', Tag = ''r7'',
           List = [\<lparr>Key = ''ret'', Value = ''ab=c''\<rparr>, \<lparr>Key = ''x'', Value = []\<rparr>],
           Map = [''ret'' \<mapsto> ''ab=c'', ''x'' \<mapsto> []]\<rparr>,
      \<lparr>bufferedReader = [], readDeadline = True\<rparr>)"
proof -
  let ?r0 = "\<lparr>bufferedReader = wire_word ''!done'' @ wire_word ''.tag=r7''
      @ wire_word ''=ret=ab=c'' @ wire_word ''=x'' @ wire_word [], readDeadline = False\<rparr>"
  let ?r1 = "\<lparr>bufferedReader = wire_word ''.tag=r7'' @ wire_word ''=ret=ab=c''
      @ wire_word ''=x'' @ wire_word [], readDeadline = True\<rparr>"
  let ?r2 = "\<lparr>bufferedReader = wire_word ''=ret=ab=c'' @ wire_word ''=x'' @ wire_word [],
      readDeadline = True\<rparr>"
  let ?r3 = "\<lparr>bufferedReader = wire_word ''=x'' @ wire_word [], readDeadline = True\<rparr>"
  let ?r4 = "\<lparr>bufferedReader = wire_word [], readDeadline = True\<rparr>"
  let ?r5 = "\<lparr>bufferedReader = [], readDeadline = True\<rparr>"
  let ?s0 = "\<lparr>Word = [], Tag = [], List = [], Map = Map.empty\<rparr>"
  let ?s1 = "\<lparr>Word = ''!done'', Tag = [], List = [], Map = Map.empty\<rparr>"
  let ?s2 = "\<lparr>Word = ''!done'', Tag = ''r7'', List = [], Map = Map.empty\<rparr>"
  let ?s3 = "\<lparr>Word = ''!done'', Tag = ''r7'', List = [\<lparr>Key = ''ret'', Value = ''ab=c''\<rparr>],
              Map = [''ret'' \<mapsto> ''ab=c'']\<rparr>"
  let ?s4 = "\<lparr>Word = ''!done'', Tag = ''r7'',
           List = [\<lparr>Key = ''ret'', Value = ''ab=c''\<rparr>, \<lparr>Key = ''x'', Value = []\<rparr>],
           Map = [''ret'' \<mapsto> ''ab=c'', ''x'' \<mapsto> []]\<rparr>"
  have w1: "readWord False ?r0 = (Inr (bytes_of ''!done''), ?r1)"
    by (rule readWord_wire_word) simp
  have "readWord False ?r1 = (Inr (bytes_of ''.tag=r7''), ?r2)"
    by (rule readWord_wire_word) simp
  then have w2: "readWord False ?r1 = (Inr (bytes_of (''.tag='' @ ''r7'')), ?r2)" by simp
  have "readWord False ?r2 = (Inr (bytes_of ''=ret=ab=c''), ?r3)"
    by (rule readWord_wire_word) simp
  then have w3: "readWord False ?r2 = (Inr (bytes_of (''='' @ ''ret'' @ ''='' @ ''ab=c'')), ?r3)"
    by simp
  have "readWord False ?r3 = (Inr (bytes_of ''=x''), ?r4)"
    by (rule readWord_wire_word) simp
  then have w4: "readWord False ?r3 = (Inr (bytes_of (''='' @ ''x'')), ?r4)" by simp
  have "readWord False ?r4 = (Inr (bytes_of []), ?r5)"
    using readWord_wire_word [where s = "[]" and rest = "[]" and d = False and a = True] by simp
  then have w5: "readWord False ?r4 = (Inr [], ?r5)" by simp
  have "ReadSentence_loop False ?s0 ?r0 = ReadSentence_loop False ?s1 ?r1"
    using ReadSentence_words [where d = False and r = ?r0 and b = "bytes_of ''!done''"
        and ?r1.0 = ?r1 and sen = ?s0] w1
    by simp
  also have "\<dots> = ReadSentence_loop False ?s2 ?r2"
    using ReadSentence_words [where d = False and r = ?r1 and t = "''r7''"
        and ?r1.0 = ?r2 and sen = ?s1] w2
    by simp
  also have "\<dots> = ReadSentence_loop False ?s3 ?r3"
    using ReadSentence_words [where d = False and r = ?r2 and k = "''ret''" and v = "''ab=c''"
        and ?r1.0 = ?r3 and sen = ?s2] w3
    by simp
  also have "\<dots> = ReadSentence_loop False ?s4 ?r4"
    using ReadSentence_words [where d = False and r = ?r3 and k = "''x''"
        and ?r1.0 = ?r4 and sen = ?s3] w4
    by simp
  also have "\<dots> = (Inr ?s4, ?r5)"
    using ReadSentence_words [where d = False and r = ?r4 and ?r1.0 = ?r5 and sen = ?s4] w5
    by simp
  finally show ?thesis .
qed

lemma Word_store_word [simp]: "Word (store_word sen word) = Word sen"
  by (simp add: store_word_def Let_def)

lemma Word_store_words [simp]: "Word (store_words sen ws) = Word sen"
  unfolding store_words_def by (induction ws arbitrary: sen) simp_all

lemma store_word_verb: "store_word (sen\<lparr>Word := v\<rparr>) word = (store_word sen word)\<lparr>Word := v\<rparr>"
  by (simp add: store_word_def Let_def)

lemma store_words_verb: "store_words (sen\<lparr>Word := v\<rparr>) ws = (store_words sen ws)\<lparr>Word := v\<rparr>"
  unfolding store_words_def by (induction ws arbitrary: sen) (simp_all add: store_word_verb)

lemma loop_valid_word:
  assumes "Word sen \<noteq> []" "valid_word word" "length word < 2 ^ 32"
  shows "ReadSentence_loop d sen \<lparr>bufferedReader = wire_word word @ rest, readDeadline = a\<rparr>
         = ReadSentence_loop d (store_word sen word)
             \<lparr>bufferedReader = rest, readDeadline = True\<rparr>"
proof -
  let ?r = "\<lparr>bufferedReader = wire_word word @ rest, readDeadline = a\<rparr>"
  let ?r1 = "\<lparr>bufferedReader = rest, readDeadline = True\<rparr>"
  have rw: "readWord d ?r = (Inr (bytes_of word), ?r1)"
    using assms(3) by (rule readWord_wire_word)
  show ?thesis
  proof (cases "prefix ''.tag='' word")
    case True
    then obtain t where w: "word = ''.tag='' @ t" by (auto simp: prefix_def)
    have "readWord d ?r = (Inr (bytes_of (''.tag='' @ t)), ?r1)" using rw w by simp
    then have "ReadSentence_loop d sen ?r = ReadSentence_loop d (sen\<lparr>Tag := t\<rparr>) ?r1"
      using assms(1) by (rule loop_tag_suffix)
    moreover have "store_word sen word = sen\<lparr>Tag := t\<rparr>"
      using True w by (simp add: store_word_def)
    ultimately show ?thesis by simp
  next
    case False
    then have "prefix ''='' word" using assms(2) by (simp add: valid_word_def)
    then obtain body where w: "word = ''='' @ body" by (auto simp: prefix_def)
    let ?P = "\<lambda>ch. ch \<noteq> CHR ''=''"
    let ?k = "takeWhile ?P body"
    have nk: "CHR ''='' \<notin> set ?k" using set_takeWhileD [of "CHR ''=''" ?P body] by blast
    have st: "store_word sen word =
        sen\<lparr>List := List sen @ [\<lparr>Key = ?k, Value = drop 1 (dropWhile ?P body)\<rparr>],
            Map := (Map sen)(?k \<mapsto> drop 1 (dropWhile ?P body))\<rparr>"
      using False w by (simp add: store_word_def Let_def)
    show ?thesis
    proof (cases "dropWhile ?P body")
      case Nil
      then have kb: "?k = body" using takeWhile_dropWhile_id [of ?P body] by simp
      have wk: "word = ''='' @ ?k" by (simp only: kb w)
      have "readWord d ?r = (Inr (bytes_of (''='' @ ?k)), ?r1)"
        using rw by (simp only: wk [symmetric])
      then have "ReadSentence_loop d sen ?r =
          ReadSentence_loop d
            (sen\<lparr>List := List sen @ [\<lparr>Key = ?k, Value = []\<rparr>], Map := (Map sen)(?k \<mapsto> [])\<rparr>) ?r1"
        using assms(1) nk by (rule loop_key_only)
      then show ?thesis using st Nil by simp
    next
      case (Cons x v)
      have "\<not> ?P (hd (dropWhile ?P body))" using Cons hd_dropWhile [of ?P body] by simp
      then have x: "x = CHR ''=''" using Cons by simp
      have "body = ?k @ ''='' @ v"
        using takeWhile_dropWhile_id [of ?P body] Cons x by simp
      then have "word = ''='' @ ?k @ ''='' @ v" using w by simp
      then have "bytes_of word = bytes_of (''='' @ ?k @ ''='' @ v)" by simp
      then have "readWord d ?r = (Inr (bytes_of (''='' @ ?k @ ''='' @ v)), ?r1)"
        using rw by simp
      then have "ReadSentence_loop d sen ?r =
          ReadSentence_loop d
            (sen\<lparr>List := List sen @ [\<lparr>Key = ?k, Value = v\<rparr>], Map := (Map sen)(?k \<mapsto> v)\<rparr>) ?r1"
        using assms(1) nk by (rule loop_key_value)
      then show ?thesis using st Cons by simp
    qed
  qed
qed

lemma loop_valid_words:
  assumes "Word sen \<noteq> []" "\<forall>x \<in> set ws. valid_word x \<and> length x < 2 ^ 32"
  shows "ReadSentence_loop d sen
           \<lparr>bufferedReader = concat (map wire_word ws) @ rest, readDeadline = a\<rparr>
         = ReadSentence_loop d (store_words sen ws)
             \<lparr>bufferedReader = rest, readDeadline = (a \<or> ws \<noteq> [])\<rparr>"
  using assms
proof (induction ws arbitrary: sen a)
  case Nil
  show ?case by (simp add: store_words_def)
next
  case (Cons x ws)
  have "ReadSentence_loop d sen
          \<lparr>bufferedReader = wire_word x @ (concat (map wire_word ws) @ rest), readDeadline = a\<rparr>
        = ReadSentence_loop d (store_word sen x)
            \<lparr>bufferedReader = concat (map wire_word ws) @ rest, readDeadline = True\<rparr>"
    using Cons.prems by (intro loop_valid_word) simp_all
  also have "\<dots> = ReadSentence_loop d (store_words (store_word sen x) ws)
            \<lparr>bufferedReader = rest, readDeadline = (True \<or> ws \<noteq> [])\<rparr>"
    using Cons.prems by (intro Cons.IH) simp_all
  finally show ?case by (simp add: store_words_def)
qed

lemma later_word_invalid:
  assumes "v \<noteq> []" "length v < 2 ^ 32" "\<forall>x \<in> set ws. valid_word x \<and> length x < 2 ^ 32"
    "w \<noteq> []" "length w < 2 ^ 32" "\<not> prefix ''='' w" "\<not> prefix ''.tag='' w"
  shows "ReadSentence d
           \<lparr>bufferedReader = wire_word v @ concat (map wire_word ws) @ wire_word w @ rest,
            readDeadline = a\<rparr>
         = (Inl (InvalidSentenceWord (bytes_of w)),
            \<lparr>bufferedReader = rest, readDeadline = True\<rparr>)"
proof -
  let ?r0 = "\<lparr>bufferedReader = wire_word v @ concat (map wire_word ws) @ wire_word w @ rest,
              readDeadline = a\<rparr>"
  let ?r1 = "\<lparr>bufferedReader = concat (map wire_word ws) @ (wire_word w @ rest),
              readDeadline = True\<rparr>"
  let ?r2 = "\<lparr>bufferedReader = wire_word w @ rest, readDeadline = (True \<or> ws \<noteq> [])\<rparr>"
  let ?r3 = "\<lparr>bufferedReader = rest, readDeadline = True\<rparr>"
  let ?s1 = "NewSentence\<lparr>Word := v\<rparr>"
  have w1: "readWord d ?r0 = (Inr (bytes_of v), ?r1)"
    using readWord_wire_word [OF assms(2), of d "concat (map wire_word ws) @ wire_word w @ rest" a]
    by simp
  have w2: "readWord d ?r2 = (Inr (bytes_of w), ?r3)"
    using assms(5) by (rule readWord_wire_word)
  have "ReadSentence d ?r0 = ReadSentence_loop d ?s1 ?r1"
    unfolding ReadSentence_def
    using loop_verb [OF w1, of NewSentence] assms(1) by (simp add: NewSentence_def)
  also have "\<dots> = ReadSentence_loop d (store_words ?s1 ws) ?r2"
    using assms(1,3) by (intro loop_valid_words) simp_all
  also have "\<dots> = (Inl (InvalidSentenceWord (bytes_of w)), ?r3)"
    using assms(1,4,6,7) by (intro loop_invalid [OF w2]) (simp_all add: prefix_bytes_of)
  finally show ?thesis .
qed

text \<open>
  C7. In a sentence whose verb has been read, followed by any number of well-formed
  \<open>.tag=\<close> and \<open>=\<close> words, a non-empty word that starts neither with \<open>=\<close> nor with
  \<open>.tag=\<close> makes \<open>ReadSentence\<close> return the error \<open>invalid RouterOS sentence word\<close>
  for that word, at once: the word is not skipped, and what follows it on the stream
  stays unread. At the level of the loop, the same holds for whatever non-empty word
  \<open>readWord\<close> returns once the verb is set.
\<close>

theorem ReadSentence_invalid_word:
  "(v \<noteq> [] \<and> length v < 2 ^ 32 \<and> (\<forall>x \<in> set ws. valid_word x \<and> length x < 2 ^ 32)
      \<and> w \<noteq> [] \<and> length w < 2 ^ 32 \<and> \<not> prefix ''='' w \<and> \<not> prefix ''.tag='' w \<longrightarrow>
    ReadSentence d
      \<lparr>bufferedReader = wire_word v @ concat (map wire_word ws) @ wire_word w @ rest,
       readDeadline = a\<rparr>
      = (Inl (InvalidSentenceWord (bytes_of w)), \<lparr>bufferedReader = rest, readDeadline = True\<rparr>))
   \<and> (readWord d r = (Inr b, r1) \<and> b \<noteq> [] \<and> Word sen \<noteq> []
      \<and> \<not> prefix (bytes_of ''='') b \<and> \<not> prefix (bytes_of ''.tag='') b \<longrightarrow>
    ReadSentence_loop d sen r = (Inl (InvalidSentenceWord b), r1))"
  using loop_invalid [of d r b r1 sen] later_word_invalid [of v ws w d rest a]
  by blast

theorem ReadSentence_invalid_word_witness:
  "ReadSentence True
     \<lparr>bufferedReader = wire_word ''!re'' @ wire_word ''.tag='' @ wire_word ''=a=b''
        @ wire_word ''garbage'' @ wire_word [],
      readDeadline = False\<rparr>
   = (Inl (InvalidSentenceWord (bytes_of ''garbage'')),
      \<lparr>bufferedReader = wire_word [], readDeadline = True\<rparr>)"
  using ReadSentence_invalid_word [where v = "''!re''" and ws = "[''.tag='', ''=a=b'']"
      and w = "''garbage''" and rest = "wire_word []" and d = True and a = False]
  by (simp add: valid_word_def)

lemma sentence_of_words:
  assumes "v \<noteq> []" "length v < 2 ^ 32" "\<forall>x \<in> set ws. valid_word x \<and> length x < 2 ^ 32"
  shows "ReadSentence d
           \<lparr>bufferedReader = wire_word v @ concat (map wire_word ws) @ wire_word [] @ rest,
            readDeadline = a\<rparr>
         = (Inr (store_words (NewSentence\<lparr>Word := v\<rparr>) ws),
            \<lparr>bufferedReader = rest, readDeadline = True\<rparr>)"
proof -
  let ?r0 = "\<lparr>bufferedReader = wire_word v @ concat (map wire_word ws) @ wire_word [] @ rest,
              readDeadline = a\<rparr>"
  let ?r1 = "\<lparr>bufferedReader = concat (map wire_word ws) @ (wire_word [] @ rest),
              readDeadline = True\<rparr>"
  let ?r2 = "\<lparr>bufferedReader = wire_word [] @ rest, readDeadline = (True \<or> ws \<noteq> [])\<rparr>"
  let ?r3 = "\<lparr>bufferedReader = rest, readDeadline = True\<rparr>"
  let ?s1 = "NewSentence\<lparr>Word := v\<rparr>"
  have w1: "readWord d ?r0 = (Inr (bytes_of v), ?r1)"
    using readWord_wire_word [OF assms(2), of d "concat (map wire_word ws) @ wire_word [] @ rest" a]
    by simp
  have "readWord d ?r2 = (Inr (bytes_of []), ?r3)"
    by (rule readWord_wire_word) simp
  then have w2: "readWord d ?r2 = (Inr [], ?r3)" by simp
  have "ReadSentence d ?r0 = ReadSentence_loop d ?s1 ?r1"
    unfolding ReadSentence_def
    using loop_verb [OF w1, of NewSentence] assms(1) by (simp add: NewSentence_def)
  also have "\<dots> = ReadSentence_loop d (store_words ?s1 ws) ?r2"
    using assms(1,3) by (intro loop_valid_words) simp_all
  also have "\<dots> = (Inr (store_words ?s1 ws), ?r3)"
    by (rule loop_end [OF w2])
  finally show ?thesis .
qed

text \<open>
  C10. For every sentence on the wire, a non-empty first word followed by well-formed
  \<open>.tag=\<close> and \<open>=\<close> words and the empty word, \<open>ReadSentence\<close> returns the sentence whose
  verb is the first word, whatever its prefix, and whose tag, pairs and mapping are
  those of the later words alone. The sentence \<open>.tag=x\<close>, empty word has the verb
  \<open>.tag=x\<close> and an empty tag. In the loop, any non-empty word read while the verb is
  empty becomes the verb.
\<close>

theorem first_word_is_verb:
  "(v \<noteq> [] \<and> length v < 2 ^ 32 \<and> (\<forall>x \<in> set ws. valid_word x \<and> length x < 2 ^ 32) \<longrightarrow>
      ReadSentence d
        \<lparr>bufferedReader = wire_word v @ concat (map wire_word ws) @ wire_word [] @ rest,
         readDeadline = a\<rparr>
        = (Inr ((store_words NewSentence ws)\<lparr>Word := v\<rparr>),
           \<lparr>bufferedReader = rest, readDeadline = True\<rparr>)
      \<and> Word ((store_words NewSentence ws)\<lparr>Word := v\<rparr>) = v)
   \<and> ReadSentence d \<lparr>bufferedReader = wire_word ''.tag=x'' @ wire_word [] @ rest,
         readDeadline = a\<rparr>
       = (Inr \<lparr>Word = ''.tag=x'', Tag = [], List = [], Map = Map.empty\<rparr>,
          \<lparr>bufferedReader = rest, readDeadline = True\<rparr>)
   \<and> (readWord d r = (Inr b, r1) \<and> b \<noteq> [] \<and> Word sen = [] \<longrightarrow>
      ReadSentence_loop d sen r = ReadSentence_loop d (sen\<lparr>Word := string_of b\<rparr>) r1)"
proof -
  have "ReadSentence d \<lparr>bufferedReader = wire_word ''.tag=x'' @ concat (map wire_word [])
          @ wire_word [] @ rest, readDeadline = a\<rparr>
        = (Inr (store_words (NewSentence\<lparr>Word := ''.tag=x''\<rparr>) []),
           \<lparr>bufferedReader = rest, readDeadline = True\<rparr>)"
    by (rule sentence_of_words) simp_all
  then have ex: "ReadSentence d \<lparr>bufferedReader = wire_word ''.tag=x'' @ wire_word [] @ rest,
         readDeadline = a\<rparr>
       = (Inr \<lparr>Word = ''.tag=x'', Tag = [], List = [], Map = Map.empty\<rparr>,
          \<lparr>bufferedReader = rest, readDeadline = True\<rparr>)"
    by (simp add: store_words_def NewSentence_def)
  show ?thesis
    using sentence_of_words [of v ws d rest a] ex loop_verb [of d r b r1 sen]
    by (simp add: store_words_verb)
qed

theorem first_word_is_verb_witness:
  "ReadSentence False
     \<lparr>bufferedReader = wire_word ''=a=b'' @ wire_word ''.tag=r2'' @ wire_word ''=x=y''
        @ wire_word [] @ [0x07],
      readDeadline = False\<rparr>
   = (Inr \<lparr>Word = ''=a=b'', Tag = ''r2'', List = [\<lparr>Key = ''x'', Value = ''y''\<rparr>],
           Map = [''x'' \<mapsto> ''y'']\<rparr>,
      \<lparr>bufferedReader = [0x07], readDeadline = True\<rparr>)"
  using first_word_is_verb [where v = "''=a=b''" and ws = "[''.tag=r2'', ''=x=y'']"
      and rest = "[0x07]" and d = False and a = False]
  by (simp add: valid_word_def store_words_def store_word_def NewSentence_def Let_def)

section \<open>Writing sentences\<close>

lemma perform_sticky:
  assumes "err w \<noteq> None" "c \<noteq> SetWriteDeadline"
  shows "perform c w = w"
  using assms by (cases c) (simp_all add: writer_write_def flush_def)

lemma fold_perform_sticky:
  assumes "err w \<noteq> None" "SetWriteDeadline \<notin> set ops"
  shows "fold perform ops w = w"
  using assms by (induction ops) (auto simp: perform_sticky)

lemma perform_ok:
  assumes "err w = None" "c \<noteq> SetWriteDeadline" "faults w = [] \<or> hd (faults w) = None"
  shows "perform c w = w\<lparr>calls := calls w @ [SetWriteDeadline, c], faults := tl (faults w)\<rparr>"
  using assms
  by (cases c; cases "faults w")
     (auto simp: writer_write_def flush_def bufferedWriter_def writer_setDeadline_def)

lemma perform_fail:
  assumes "err w = None" "c \<noteq> SetWriteDeadline" "faults w = Some e # fs"
  shows "perform c w = w\<lparr>calls := calls w @ [SetWriteDeadline, c], faults := fs, err := Some e\<rparr>"
  using assms
  by (cases c)
     (auto simp: writer_write_def flush_def bufferedWriter_def writer_setDeadline_def)

lemma fold_perform:
  assumes "err w = None" "SetWriteDeadline \<notin> set ops"
  shows "fold perform ops w =
         (if successes (faults w) < length ops \<and> successes (faults w) < length (faults w)
          then w\<lparr>calls := calls w @ armed (take (Suc (successes (faults w))) ops),
                 faults := drop (Suc (successes (faults w))) (faults w),
                 err := faults w ! successes (faults w)\<rparr>
          else w\<lparr>calls := calls w @ armed ops, faults := drop (length ops) (faults w)\<rparr>)"
  using assms
proof (induction ops arbitrary: w)
  case Nil
  then show ?case by (simp add: armed_def)
next
  case (Cons c ops)
  have c: "c \<noteq> SetWriteDeadline" and ops: "SetWriteDeadline \<notin> set ops"
    using Cons.prems(2) by auto
  show ?case
  proof (cases "faults w")
    case Nil
    let ?w1 = "w\<lparr>calls := calls w @ [SetWriteDeadline, c], faults := []\<rparr>"
    have p: "perform c w = ?w1" using perform_ok [of w c] Cons.prems(1) c Nil by simp
    have "fold perform ops ?w1 = ?w1\<lparr>calls := calls ?w1 @ armed ops\<rparr>"
      using Cons.IH [of ?w1] Cons.prems(1) ops by (simp add: successes_def)
    then show ?thesis using p Nil by (simp add: successes_def armed_def)
  next
    case (Cons f fs)
    show ?thesis
    proof (cases f)
      case None
      let ?w1 = "w\<lparr>calls := calls w @ [SetWriteDeadline, c], faults := fs\<rparr>"
      have p: "perform c w = ?w1"
        using perform_ok [of w c] Cons.prems(1) c Cons None by simp
      have s: "successes (faults w) = Suc (successes fs)"
        using Cons None by (simp add: successes_def)
      show ?thesis
        using Cons.IH [of ?w1] Cons.prems(1) ops p s Cons None
        by (simp add: armed_def)
    next
      case (Some e)
      let ?w1 = "w\<lparr>calls := calls w @ [SetWriteDeadline, c], faults := fs, err := Some e\<rparr>"
      have p: "perform c w = ?w1"
        using perform_fail [of w c e fs] Cons.prems(1) c Cons Some by simp
      have s: "successes (faults w) = 0"
        using Cons Some by (simp add: successes_def)
      have "fold perform ops ?w1 = ?w1" using ops by (intro fold_perform_sticky) simp_all
      then show ?thesis using p s Cons Some by (simp add: armed_def)
    qed
  qed
qed

lemma WriteWord_perform: "WriteWord word w = fold perform (word_calls word) w"
  by (simp add: WriteWord_def word_calls_def Let_def)

lemma WriteWords_perform:
  "foldl (\<lambda>w word. WriteWord word w) w ws = fold perform (concat (map word_calls ws)) w"
  by (induction ws arbitrary: w) (simp_all add: WriteWord_perform)

lemma perform_locked: "locked (perform c w) = locked w"
  by (cases c)
     (auto simp: writer_write_def flush_def bufferedWriter_def writer_setDeadline_def
           split: list.splits option.splits)

lemma fold_perform_locked: "locked (fold perform ops w) = locked w"
  by (induction ops arbitrary: w) (simp_all add: perform_locked)

lemma EndSentence_perform:
  "EndSentence (foldl (\<lambda>w word. WriteWord word w) w ws) =
     (let w1 = fold perform (sentence_calls ws) w
      in if locked w then Some (err w1, w1\<lparr>locked := False\<rparr>) else None)"
proof -
  have "flush (WriteWord [] (fold perform (concat (map word_calls ws)) w))
        = fold perform (sentence_calls ws) w"
    by (simp add: sentence_calls_def WriteWord_perform)
  then show ?thesis
    by (simp add: EndSentence_def WriteWords_perform Let_def fold_perform_locked)
qed

lemma no_deadline_in_sentence: "SetWriteDeadline \<notin> set (sentence_calls ws)"
  by (auto simp: sentence_calls_def word_calls_def)

lemma successes_facts:
  "successes fs \<le> length fs"
  "i < successes fs \<Longrightarrow> fs ! i = None"
  "successes fs < length fs \<Longrightarrow> fs ! successes fs \<noteq> None"
proof -
  show "successes fs \<le> length fs" by (simp add: successes_def length_takeWhile_le)
  show "i < successes fs \<Longrightarrow> fs ! i = None"
    unfolding successes_def
    using takeWhile_nth [of i "\<lambda>f. f = None" fs] nth_mem [of i "takeWhile (\<lambda>f. f = None) fs"]
      set_takeWhileD [of "fs ! i" "\<lambda>f. f = None" fs]
    by auto
  show "successes fs < length fs \<Longrightarrow> fs ! successes fs \<noteq> None"
    unfolding successes_def using nth_length_takeWhile [of "\<lambda>f. f = None" fs] by auto
qed

lemma EndSentence_result:
  assumes "locked w"
  shows "EndSentence (foldl (\<lambda>w word. WriteWord word w) w ws) =
     Some (case err w of
             Some e \<Rightarrow> (Some e, w\<lparr>locked := False\<rparr>)
           | None \<Rightarrow>
               if successes (faults w) < length (sentence_calls ws)
                  \<and> successes (faults w) < length (faults w)
               then (faults w ! successes (faults w),
                     w\<lparr>calls := calls w
                          @ armed (take (Suc (successes (faults w))) (sentence_calls ws)),
                       faults := drop (Suc (successes (faults w))) (faults w),
                       err := faults w ! successes (faults w), locked := False\<rparr>)
               else (None,
                     w\<lparr>calls := calls w @ armed (sentence_calls ws),
                       faults := drop (length (sentence_calls ws)) (faults w),
                       locked := False\<rparr>))"
proof (cases "err w")
  case None
  show ?thesis
    using assms None
    by (simp add: EndSentence_perform fold_perform [OF None no_deadline_in_sentence] Let_def)
next
  case (Some e)
  then have "fold perform (sentence_calls ws) w = w"
    by (intro fold_perform_sticky no_deadline_in_sentence) simp
  then show ?thesis using assms Some by (simp add: EndSentence_perform Let_def)
qed

text \<open>
  C3, as amended. The writer's error is sticky for the life of the writer, not of the
  sentence. For a sentence written on a locked writer (after \<open>BeginSentence\<close>), words
  \<open>ws\<close> and then \<open>EndSentence\<close>: if the writer already holds an error, nothing reaches
  the transport and \<open>EndSentence\<close> returns that earlier error. If it holds none: when
  a write or the flush of the sentence fails, the calls made are exactly those up to
  and including the first failing one, every later write and flush is skipped, and
  \<open>EndSentence\<close> returns that first error; when none fails, all calls of the sentence
  are made and \<open>EndSentence\<close> returns no error.
\<close>

theorem EndSentence_sticky_error:
  assumes "locked w"
  shows "EndSentence (foldl (\<lambda>w word. WriteWord word w) w ws) =
     Some (case err w of
             Some e \<Rightarrow> (Some e, w\<lparr>locked := False\<rparr>)
           | None \<Rightarrow>
               if successes (faults w) < length (sentence_calls ws)
                  \<and> successes (faults w) < length (faults w)
               then (faults w ! successes (faults w),
                     w\<lparr>calls := calls w
                          @ armed (take (Suc (successes (faults w))) (sentence_calls ws)),
                       faults := drop (Suc (successes (faults w))) (faults w),
                       err := faults w ! successes (faults w), locked := False\<rparr>)
               else (None,
                     w\<lparr>calls := calls w @ armed (sentence_calls ws),
                       faults := drop (length (sentence_calls ws)) (faults w),
                       locked := False\<rparr>))
     \<and> (\<forall>i < successes (faults w). faults w ! i = None)
     \<and> (successes (faults w) < length (faults w) \<longrightarrow> faults w ! successes (faults w) \<noteq> None)"
  using EndSentence_result [OF assms, of ws] successes_facts(2) [of _ "faults w"]
    successes_facts(3) [of "faults w"]
  by blast

theorem EndSentence_sticky_error_witness:
  "locked \<lparr>calls = [], faults = [None, Some (IOError 7), None], err = None, locked = True\<rparr>
   \<and> EndSentence (foldl (\<lambda>w word. WriteWord word w)
        \<lparr>calls = [], faults = [None, Some (IOError 7), None], err = None, locked = True\<rparr>
        [''/x''])
     = Some (Some (IOError 7),
         \<lparr>calls = [SetWriteDeadline, Write [0x02], SetWriteDeadline, Write (bytes_of ''/x'')],
          faults = [None], err = Some (IOError 7), locked = False\<rparr>)"
proof -
  let ?w = "\<lparr>calls = [], faults = [None, Some (IOError 7), None], err = None, locked = True\<rparr>"
  have l: "locked ?w" by simp
  have e: "encodeLength 2 = [0x02]" by (simp add: encodeLength_def word_sless_alt)
  have s: "successes [None, Some (IOError 7), None] = 1" by (simp add: successes_def)
  show ?thesis
    using EndSentence_sticky_error [OF l, of "[''/x'']"]
    by (simp add: s e sentence_calls_def word_calls_def armed_def)
qed

text \<open>
  The claim as stated fails for a sentence that follows a failed one. The flush of the
  first sentence fails; the second sentence makes no call at all, so no write or
  flush of it fails, and yet its \<open>EndSentence\<close> returns the error of the first.
\<close>

theorem EndSentence_earlier_error_counterexample:
  "Option.bind (BeginSentence (NewWriter [None, None, None, None, Some (IOError 1)]))
       (\<lambda>w. EndSentence (foldl (\<lambda>w word. WriteWord word w) w [''/a'']))
     = Some (Some (IOError 1),
         \<lparr>calls = [SetWriteDeadline, Write [0x02], SetWriteDeadline, Write (bytes_of ''/a''),
                    SetWriteDeadline, Write [0x00], SetWriteDeadline, Write [],
                    SetWriteDeadline, Flush],
          faults = [], err = Some (IOError 1), locked = False\<rparr>)
   \<and> Option.bind (BeginSentence
          \<lparr>calls = [SetWriteDeadline, Write [0x02], SetWriteDeadline, Write (bytes_of ''/a''),
                     SetWriteDeadline, Write [0x00], SetWriteDeadline, Write [],
                     SetWriteDeadline, Flush],
           faults = [], err = Some (IOError 1), locked = False\<rparr>)
       (\<lambda>w. EndSentence (foldl (\<lambda>w word. WriteWord word w) w [''/b'']))
     = Some (Some (IOError 1),
         \<lparr>calls = [SetWriteDeadline, Write [0x02], SetWriteDeadline, Write (bytes_of ''/a''),
                    SetWriteDeadline, Write [0x00], SetWriteDeadline, Write [],
                    SetWriteDeadline, Flush],
          faults = [], err = Some (IOError 1), locked = False\<rparr>)"
proof -
  have e: "encodeLength 2 = [0x02]" "encodeLength 0 = [0x00]"
    by (simp_all add: encodeLength_def word_sless_alt)
  show ?thesis
    by (simp add: BeginSentence_def NewWriter_def EndSentence_def WriteWord_def writer_write_def
          flush_def bufferedWriter_def writer_setDeadline_def e Let_def)
qed

section \<open>Running commands\<close>

lemma dropWhile_rev_nonempty:
  assumes "dropWhile P xs \<noteq> []"
  shows "dropWhile P (rev (dropWhile P xs)) \<noteq> []"
proof -
  obtain y ys where d: "dropWhile P xs = y # ys" using assms by (cases "dropWhile P xs") auto
  then have "\<not> P y" using hd_dropWhile [of P xs] by auto
  then have "dropWhile P (rev ys @ [y]) \<noteq> []"
    by (simp add: dropWhile_append)
  then show ?thesis using d by simp
qed

lemma trim_both_empty_iff:
  "rev (dropWhile P (rev (dropWhile P xs))) = [] \<longleftrightarrow> (\<forall>x \<in> set xs. P x)"
proof
  assume "rev (dropWhile P (rev (dropWhile P xs))) = []"
  then have "dropWhile P (rev (dropWhile P xs)) = []" by simp
  then have "dropWhile P xs = []" using dropWhile_rev_nonempty [of P xs] by blast
  then show "\<forall>x \<in> set xs. P x" using dropWhile_eq_Nil_conv [of P xs] by blast
next
  assume "\<forall>x \<in> set xs. P x"
  then have "dropWhile P xs = []" using dropWhile_eq_Nil_conv [of P xs] by blast
  then show "rev (dropWhile P (rev (dropWhile P xs))) = []"
    by (simp del: dropWhile_eq_Nil_conv)
qed

lemma Trim_empty_iff: "Trim word '' '' = [] \<longleftrightarrow> (\<forall>ch \<in> set word. ch = CHR '' '')"
proof -
  have "Trim word '' '' = [] \<longleftrightarrow> (\<forall>ch \<in> set word. ch \<in> set '' '')"
    unfolding Trim_def by (rule trim_both_empty_iff)
  also have "\<dots> \<longleftrightarrow> (\<forall>ch \<in> set word. ch = CHR '' '')" by simp
  finally show ?thesis .
qed


lemma hasEmptyWord_iff:
  "hasEmptyWord sentence \<longleftrightarrow> (\<exists>word \<in> set sentence. \<forall>ch \<in> set word. ch = CHR '' '')"
  by (induction sentence) (auto simp add: Trim_empty_iff)

lemma RunArgs_empty_word:
  assumes "\<exists>word \<in> set sentence. \<forall>ch \<in> set word. ch = CHR '' ''"
  shows "RunArgs readReply events c sentence = Some ((None, Some errEmptyWord), c)"
  using assms by (simp add: RunArgs_def hasEmptyWord_iff)

text \<open>
  C4, as amended. When some word of the sentence is empty or consists only of space
  characters, \<open>RunArgs\<close> (and \<open>Run\<close>) returns the empty-word error and the client is as
  it was: the mutex of the writer is not taken and nothing is written. So it is for
  \<open>Run("/ip/address/add", "")\<close> and \<open>Run("/ip/address/add", "   ")\<close>.
\<close>

theorem RunArgs_rejects_blank_words:
  "((\<exists>word \<in> set sentence. \<forall>ch \<in> set word. ch = CHR '' '') \<longrightarrow>
      RunArgs readReply events c sentence = Some ((None, Some errEmptyWord), c)
      \<and> Run readReply events c sentence = Some ((None, Some errEmptyWord), c))
   \<and> Run readReply events c [''/ip/address/add'', ''''] = Some ((None, Some errEmptyWord), c)
   \<and> Run readReply events c [''/ip/address/add'', ''   ''] = Some ((None, Some errEmptyWord), c)"
proof -
  have a: "\<exists>word \<in> set [''/ip/address/add'', '''']. \<forall>ch \<in> set word. ch = CHR '' ''" by simp
  have b: "\<exists>word \<in> set [''/ip/address/add'', ''   '']. \<forall>ch \<in> set word. ch = CHR '' ''"
    by simp
  show ?thesis
    unfolding Run_def
    using RunArgs_empty_word [of sentence readReply events c]
      RunArgs_empty_word [OF a, of readReply events c]
      RunArgs_empty_word [OF b, of readReply events c]
    by blast
qed

theorem RunArgs_rejects_blank_words_witness:
  "(\<exists>word \<in> set [''/interface/print'', '' '']. \<forall>ch \<in> set word. ch = CHR '' '')
   \<and> RunArgs (\<lambda>c. ((None, None), c)) (\<lambda>t. []) (NewClient [] [] 0) [''/interface/print'', '' '']
       = Some ((None, Some errEmptyWord), NewClient [] [] 0)"
proof -
  have a: "\<exists>word \<in> set [''/interface/print'', '' '']. \<forall>ch \<in> set word. ch = CHR '' ''"
    by simp
  show ?thesis
    using a RunArgs_rejects_blank_words [where sentence = "[''/interface/print'', '' '']"
      and readReply = "\<lambda>c. ((None, None), c)" and events = "\<lambda>t. []" and c = "NewClient [] [] 0"]
    by blast
qed

text \<open>
  The claim as stated fails for white space other than the space character: the word
  made of one tab passes the check, and the whole sentence is written and flushed.
\<close>

theorem RunArgs_tab_word_counterexample:
  "all_whitespace [CHR 0x09]
   \<and> RunArgs (\<lambda>c. ((None, None), c)) (\<lambda>t. []) (NewClient [] [] 0)
        [''/ip/address/add'', [CHR 0x09]]
     = Some ((None, None),
         (NewClient [] [] 0)\<lparr>c_w :=
            \<lparr>calls = [SetWriteDeadline, Write [0x0F],
                       SetWriteDeadline, Write (bytes_of ''/ip/address/add''),
                       SetWriteDeadline, Write [0x01],
                       SetWriteDeadline, Write [0x09],
                       SetWriteDeadline, Write [0x00],
                       SetWriteDeadline, Write [],
                       SetWriteDeadline, Flush],
             faults = [], err = None, locked = False\<rparr>\<rparr>)"
proof -
  let ?ws = "[''/ip/address/add'', [CHR 0x09]]"
  let ?w1 = "\<lparr>calls = [], faults = [], err = None, locked = True\<rparr>"
  have e: "encodeLength 15 = [0x0F]" "encodeLength 1 = [0x01]" "encodeLength 0 = [0x00]"
    by (simp_all add: encodeLength_def word_sless_alt)
  have t: "\<not> hasEmptyWord ?ws"
    by (simp add: hasEmptyWord_iff)
  have b: "bytes_of [CHR 0x09] = [0x09]" by (simp add: bytes_of_def)
  have ws: "all_whitespace [CHR 0x09]" by (simp add: all_whitespace_def)
  have beg: "BeginSentence (NewWriter []) = Some ?w1"
    by (simp add: BeginSentence_def NewWriter_def)
  have l: "locked ?w1" by simp
  have ops: "armed (sentence_calls ?ws) =
     [SetWriteDeadline, Write [0x0F], SetWriteDeadline, Write (bytes_of ''/ip/address/add''),
      SetWriteDeadline, Write [0x01], SetWriteDeadline, Write [0x09],
      SetWriteDeadline, Write [0x00], SetWriteDeadline, Write [], SetWriteDeadline, Flush]"
    by (simp add: armed_def sentence_calls_def word_calls_def e b)
  have "EndSentence (foldl (\<lambda>w word. WriteWord word w) ?w1 ?ws)
        = Some (None, ?w1\<lparr>calls := calls ?w1 @ armed (sentence_calls ?ws),
                  faults := drop (length (sentence_calls ?ws)) (faults ?w1), locked := False\<rparr>)"
    using EndSentence_result [OF l, of ?ws] by (simp add: successes_def)
  then have en: "EndSentence (foldl (\<lambda>w word. WriteWord word w) ?w1 ?ws)
        = Some (None, \<lparr>calls = armed (sentence_calls ?ws), faults = [], err = None,
                  locked = False\<rparr>)"
    by simp
  have en': "EndSentence (WriteWord [CHR 0x09] (WriteWord ''/ip/address/add'' ?w1))
        = Some (None, \<lparr>calls = armed (sentence_calls ?ws), faults = [], err = None,
                  locked = False\<rparr>)"
    using en by simp
  show ?thesis
    unfolding RunArgs_def
    by (simp only: t if_False) (simp add: ws NewClient_def beg endCommandSync_def en' ops Let_def)
qed

section \<open>Tags of asynchronous commands\<close>

lemma decimal_value_FormatUint: "decimal_value (FormatUint n) = n"
proof (induction n rule: FormatUint.induct)
  case (1 n)
  show ?case
  proof (cases "n < 10")
    case True
    then have "FormatUint n = [char_of (48 + n)]" by (subst FormatUint.simps) simp
    moreover have "(48 + n) mod 256 = 48 + n" using True by simp
    ultimately show ?thesis by (simp add: decimal_value_def)
  next
    case False
    then have f: "FormatUint n = FormatUint (n div 10) @ [char_of (48 + n mod 10)]"
      by (subst FormatUint.simps) simp
    have ih: "decimal_value (FormatUint (n div 10)) = n div 10" using "1.IH" False by simp
    have "(48 + n mod 10) mod 256 = 48 + n mod 10"
      by (rule mod_less) (simp add: less_le_trans [of "48 + n mod 10" 58])
    then have "decimal_value (FormatUint n) = decimal_value (FormatUint (n div 10)) * 10 + n mod 10"
      by (simp add: f decimal_value_def)
    then show ?thesis using ih by simp
  qed
qed

lemma FormatUint_inj:
  assumes "FormatUint m = FormatUint n"
  shows "m = n"
proof -
  have "m = decimal_value (FormatUint m)" by (simp only: decimal_value_FormatUint)
  also have "\<dots> = decimal_value (FormatUint n)" by (simp only: assms)
  also have "\<dots> = n" by (simp only: decimal_value_FormatUint)
  finally show ?thesis .
qed

lemma tag_inj:
  fixes m n :: "64 word"
  assumes "''r'' @ FormatUint (unat m) = ''r'' @ FormatUint (unat n)"
  shows "m = n"
proof -
  have "FormatUint (unat m) = FormatUint (unat n)" using assms by simp
  then have "unat m = unat n" by (rule FormatUint_inj)
  then show ?thesis by (simp add: word_unat_eq_iff)
qed

lemma word_add_nat_inj:
  fixes t :: "64 word"
  assumes "j < k" "k < 2 ^ 64"
  shows "t + of_nat j \<noteq> t + of_nat k"
proof
  assume "t + of_nat j = t + of_nat k"
  then have "(of_nat j :: 64 word) = of_nat k" by simp
  then have "unat (of_nat j :: 64 word) = unat (of_nat k :: 64 word)" by simp
  then have "j = k" using assms by (simp add: unat_of_nat)
  then show False using assms(1) by simp
qed

lemma counter_increases:
  fixes t :: "64 word"
  assumes "t \<noteq> - 1"
  shows "t < t + 1"
proof -
  have "\<not> t + 1 \<le> t" using assms by (simp add: inc_less_eq_self_iff_eq)
  then show ?thesis by (simp only: not_le)
qed

lemma endCommandAsync_tag:
  assumes "endCommandAsync c = Some (res, c')"
  shows "lastTag c' = lastTag c + 1
       \<and> (\<forall>a. res = Inr a \<longrightarrow> tag a = ''r'' @ FormatUint (unat (lastTag c + 1))
              \<and> (\<exists>m. tags c' = Some m \<and> m (tag a) = Some a))"
  using assms
  by (auto simp: endCommandAsync_def nextTag_def Let_def
           split: option.splits prod.splits sum.splits)

lemma digit_chars:
  "char_of (48 :: nat) = CHR ''0''" "char_of (50 :: nat) = CHR ''2''"
  "char_of (52 :: nat) = CHR ''4''"
proof -
  have "char_of (of_char CHR ''0'' :: nat) = CHR ''0''" by (rule char_of_char)
  then show "char_of (48 :: nat) = CHR ''0''" by simp
  have "char_of (of_char CHR ''2'' :: nat) = CHR ''2''" by (rule char_of_char)
  then show "char_of (50 :: nat) = CHR ''2''" by simp
  have "char_of (of_char CHR ''4'' :: nat) = CHR ''4''" by (rule char_of_char)
  then show "char_of (52 :: nat) = CHR ''4''" by simp
qed

lemma FormatUint_42: "FormatUint 42 = ''42''"
  by (simp add: FormatUint.simps digit_chars)

lemma FormatUint_0: "FormatUint 0 = ''0''"
  by (simp add: FormatUint.simps digit_chars)

text \<open>
  C6, as amended. \<open>endCommandAsync\<close> adds one to the 64-bit counter, whatever its
  outcome, and the entry it registers has the tag \<open>r\<close> followed by the decimal
  digits of the new counter value (the digits denote that value). The counter grows strictly unless it stood at
  \<open>2^64 - 1\<close>, where it wraps to 0. Two asynchronous commands of one client, the later
  issued \<open>k < 2^64 - 1\<close> allocations after the earlier, have different tags. The
  increment is one atomic step, so concurrent allocations are allocations in some
  order.
\<close>

theorem async_tags:
  "(endCommandAsync c = Some (res, c') \<longrightarrow>
      lastTag c' = lastTag c + 1
      \<and> (lastTag c \<noteq> - 1 \<longrightarrow> lastTag c < lastTag c')
      \<and> (\<forall>a. res = Inr a \<longrightarrow> tag a = ''r'' @ FormatUint (unat (lastTag c'))
             \<and> decimal_value (drop 1 (tag a)) = unat (lastTag c')))
   \<and> (endCommandAsync c = Some (Inr a1, c') \<and> endCommandAsync d = Some (Inr a2, d')
        \<and> lastTag d = lastTag c' + of_nat k \<and> k < 2 ^ 64 - 1 \<longrightarrow> tag a1 \<noteq> tag a2)
   \<and> nextTag c = (lastTag c + 1, c\<lparr>lastTag := lastTag c + 1\<rparr>)"
proof -
  have one: "endCommandAsync c = Some (res, c') \<longrightarrow>
      lastTag c' = lastTag c + 1
      \<and> (lastTag c \<noteq> - 1 \<longrightarrow> lastTag c < lastTag c')
      \<and> (\<forall>a. res = Inr a \<longrightarrow> tag a = ''r'' @ FormatUint (unat (lastTag c'))
             \<and> decimal_value (drop 1 (tag a)) = unat (lastTag c'))"
    using endCommandAsync_tag [of c res c'] counter_increases [of "lastTag c"]
    by (auto simp: decimal_value_FormatUint)
  have two: "tag a1 \<noteq> tag a2"
    if h: "endCommandAsync c = Some (Inr a1, c')" "endCommandAsync d = Some (Inr a2, d')"
      "lastTag d = lastTag c' + of_nat k" "k < 2 ^ 64 - 1"
  proof
    assume eq: "tag a1 = tag a2"
    have t1: "tag a1 = ''r'' @ FormatUint (unat (lastTag c'))"
      using endCommandAsync_tag [OF h(1)] by simp
    have t2: "tag a2 = ''r'' @ FormatUint (unat (lastTag d + 1))"
      using endCommandAsync_tag [OF h(2)] by simp
    have "lastTag c' = lastTag d + 1" using eq t1 t2 by (intro tag_inj) simp
    then have "lastTag c' + of_nat 0 = lastTag c' + of_nat (Suc k)"
      using h(3) by (simp add: algebra_simps)
    moreover have "lastTag c' + of_nat 0 \<noteq> lastTag c' + of_nat (Suc k)"
      using h(4) by (intro word_add_nat_inj) simp_all
    ultimately show False by simp
  qed
  have three: "nextTag c = (lastTag c + 1, c\<lparr>lastTag := lastTag c + 1\<rparr>)"
    by (simp add: nextTag_def)
  show ?thesis using one two three by blast
qed

theorem async_tags_witness:
  "endCommandAsync
     \<lparr>c_r = \<lparr>bufferedReader = [], readDeadline = False\<rparr>,
      c_w = \<lparr>calls = [], faults = [], err = None, locked = True\<rparr>,
      closing = False, async = True, lastTag = 41, tags = Some Map.empty, timeout = 0\<rparr>
   = Some (Inr \<lparr>tag = ''r42'', a_err = None, a_Reply = \<lparr>Re = [], Done = None\<rparr>\<rparr>,
       \<lparr>c_r = \<lparr>bufferedReader = [], readDeadline = False\<rparr>,
        c_w = \<lparr>calls = [SetWriteDeadline, Write [0x08], SetWriteDeadline,
                         Write (bytes_of ''.tag=r42''), SetWriteDeadline, Write [0x00],
                         SetWriteDeadline, Write [], SetWriteDeadline, Flush],
                faults = [], err = None, locked = False\<rparr>,
        closing = False, async = True, lastTag = 42,
        tags = Some [''r42'' \<mapsto> \<lparr>tag = ''r42'', a_err = None,
                                   a_Reply = \<lparr>Re = [], Done = None\<rparr>\<rparr>],
        timeout = 0\<rparr>)
   \<and> (41 :: 64 word) < 42"
proof -
  let ?c = "\<lparr>c_r = \<lparr>bufferedReader = [], readDeadline = False\<rparr>,
      c_w = \<lparr>calls = [], faults = [], err = None, locked = True\<rparr>,
      closing = False, async = True, lastTag = 41, tags = Some Map.empty, timeout = 0\<rparr>"
  let ?a = "\<lparr>tag = ''r42'', a_err = None, a_Reply = \<lparr>Re = [], Done = None\<rparr>\<rparr>"
  let ?c' = "\<lparr>c_r = \<lparr>bufferedReader = [], readDeadline = False\<rparr>,
        c_w = \<lparr>calls = [SetWriteDeadline, Write [0x08], SetWriteDeadline,
                         Write (bytes_of ''.tag=r42''), SetWriteDeadline, Write [0x00],
                         SetWriteDeadline, Write [], SetWriteDeadline, Flush],
                faults = [], err = None, locked = False\<rparr>,
        closing = False, async = True, lastTag = 42,
        tags = Some [''r42'' \<mapsto> ?a], timeout = 0\<rparr>"
  have e: "encodeLength 8 = [0x08]" "encodeLength 0 = [0x00]"
    by (simp_all add: encodeLength_def word_sless_alt)
  have run: "endCommandAsync ?c = Some (Inr ?a, ?c')"
    by (simp add: endCommandAsync_def nextTag_def FormatUint_42 WriteWord_def writer_write_def
          flush_def bufferedWriter_def writer_setDeadline_def EndSentence_def e Let_def)
  show ?thesis
    using run async_tags [where c = ?c and res = "Inr ?a" and c' = ?c']
    by simp
qed

text \<open>
  The claim as stated fails where the counter wraps: at \<open>2^64 - 1\<close> the next value is
  0, which is not greater, and the tag is \<open>r0\<close>.
\<close>

theorem counter_wraps_counterexample:
  "nextTag ((NewClient [] [] 0)\<lparr>lastTag := 0xFFFFFFFFFFFFFFFF\<rparr>)
     = (0, (NewClient [] [] 0)\<lparr>lastTag := 0\<rparr>)
   \<and> \<not> (0xFFFFFFFFFFFFFFFF :: 64 word) < 0
   \<and> ''r'' @ FormatUint (unat (0 :: 64 word)) = ''r0''"
  by (simp add: nextTag_def NewClient_def FormatUint_0)

section \<open>Waiting for an asynchronous reply\<close>

lemma readAllSentences_no_timer:
  assumes "newTimeoutTimer d = None" "readAllSentences d evs = Some (rp, e)"
  shows "\<exists>rep. rp = Some rep \<and> Closed rep e \<in> set evs"
  using assms
proof (induction evs)
  case Nil
  then show ?case by simp
next
  case (Cons ev evs)
  then show ?case by (cases ev) auto
qed

lemma endCommandAsync_timeout:
  assumes "endCommandAsync c = Some (res, c')"
  shows "timeout c' = timeout c \<and> (\<forall>e. res = Inl e \<longrightarrow> e \<noteq> errAsyncTimeout)"
  using assms
  by (auto simp: endCommandAsync_def nextTag_def Let_def
           split: option.splits prod.splits sum.splits)

lemma RunArgs_async_result:
  assumes "async c" "RunArgs readReply events c sentence = Some ((rp, Some errAsyncTimeout), c')"
  shows "\<exists>t. readAllSentences (timeout c) (events t) = Some (rp, Some errAsyncTimeout)"
proof -
  have ne: "\<not> hasEmptyWord sentence" using assms(2) by (auto simp: RunArgs_def)
  then obtain w1 where b: "BeginSentence (c_w c) = Some w1"
    using assms(2) by (auto simp: RunArgs_def split: option.splits)
  let ?c1 = "c\<lparr>c_w := foldl (\<lambda>w word. WriteWord word w) w1 sentence\<rparr>"
  have r: "(case endCommandAsync ?c1 of
              None \<Rightarrow> None
            | Some (Inl e, c2) \<Rightarrow> Some ((None, Some e), c2)
            | Some (Inr a, c2) \<Rightarrow>
                map_option (\<lambda>res. (res, c2)) (readAllSentences (timeout c2) (events (tag a))))
           = Some ((rp, Some errAsyncTimeout), c')"
    using assms ne b by (simp add: RunArgs_def Let_def)
  then obtain res c2 where ea: "endCommandAsync ?c1 = Some (res, c2)"
    by (cases "endCommandAsync ?c1") auto
  have t: "timeout c2 = timeout c" and nl: "\<forall>e. res = Inl e \<longrightarrow> e \<noteq> errAsyncTimeout"
    using endCommandAsync_timeout [OF ea] by simp_all
  show ?thesis
  proof (cases res)
    case (Inl e)
    then show ?thesis using r ea nl by simp
  next
    case (Inr a)
    then have "readAllSentences (timeout c) (events (tag a)) = Some (rp, Some errAsyncTimeout)"
      using r ea t by auto
    then show ?thesis by blast
  qed
qed

text \<open>
  C9. With a timeout that is not positive \<open>newTimeoutTimer\<close> gives no timer and no
  channel. Then the wait returns only when the completion channel is found closed,
  with the reply and the error recorded in the entry, and until then it does not
  return, whatever else happens; in asynchronous mode \<open>RunArgs\<close>
  never returns the pair \<open>(nil, errAsyncTimeout)\<close> of its timeout case, and never
  returns the error \<open>errAsyncTimeout\<close> at all unless the background loop recorded it
  in the entry. With a positive timeout the timer's channel delivering ends the wait
  with \<open>errAsyncTimeout\<close>.
\<close>

theorem no_timer_no_async_timeout:
  "(\<not> 0 <s timeout c \<longrightarrow>
      newTimeoutTimer (timeout c) = None
      \<and> (\<forall>evs rp e. readAllSentences (timeout c) evs = Some (rp, e) \<longrightarrow>
            (\<exists>rep. rp = Some rep \<and> Closed rep e \<in> set evs))
      \<and> (\<forall>evs. (\<forall>rep e. Closed rep e \<notin> set evs) \<longrightarrow>
            readAllSentences (timeout c) evs = None)
      \<and> (async c \<longrightarrow>
            (\<forall>c'. RunArgs readReply events c sentence \<noteq> Some ((None, Some errAsyncTimeout), c')))
      \<and> (async c \<and> (\<forall>t rep. Closed rep (Some errAsyncTimeout) \<notin> set (events t)) \<longrightarrow>
            (\<forall>rp c'. RunArgs readReply events c sentence
                        \<noteq> Some ((rp, Some errAsyncTimeout), c'))))
   \<and> (0 <s d \<longrightarrow> readAllSentences d (TimerFired # evs) = Some (None, Some errAsyncTimeout))"
proof -
  have pos: "0 <s d \<longrightarrow> readAllSentences d (TimerFired # evs) = Some (None, Some errAsyncTimeout)"
    by (simp add: newTimeoutTimer_def)
  have neg: "newTimeoutTimer (timeout c) = None
      \<and> (\<forall>evs rp e. readAllSentences (timeout c) evs = Some (rp, e) \<longrightarrow>
            (\<exists>rep. rp = Some rep \<and> Closed rep e \<in> set evs))
      \<and> (\<forall>evs. (\<forall>rep e. Closed rep e \<notin> set evs) \<longrightarrow>
            readAllSentences (timeout c) evs = None)
      \<and> (async c \<longrightarrow>
            (\<forall>c'. RunArgs readReply events c sentence \<noteq> Some ((None, Some errAsyncTimeout), c')))
      \<and> (async c \<and> (\<forall>t rep. Closed rep (Some errAsyncTimeout) \<notin> set (events t)) \<longrightarrow>
            (\<forall>rp c'. RunArgs readReply events c sentence
                        \<noteq> Some ((rp, Some errAsyncTimeout), c')))"
    if h: "\<not> 0 <s timeout c"
  proof -
    have nt: "newTimeoutTimer (timeout c) = None" using h by (simp add: newTimeoutTimer_def)
    have closed: "\<exists>rep. rp = Some rep \<and> Closed rep e \<in> set evs"
      if ra: "readAllSentences (timeout c) evs = Some (rp, e)" for evs rp e
      using nt ra by (rule readAllSentences_no_timer)
    have unb: "readAllSentences (timeout c) evs = None"
      if nc: "\<forall>rep e. Closed rep e \<notin> set evs" for evs
    proof (cases "readAllSentences (timeout c) evs")
      case None
      then show ?thesis .
    next
      case (Some x)
      obtain rp e where "x = (rp, e)" by (cases x)
      then show ?thesis using closed [of evs rp e] Some nc by blast
    qed
    have a1: "RunArgs readReply events c sentence \<noteq> Some ((None, Some errAsyncTimeout), c')"
      if ac: "async c" for c'
    proof
      assume "RunArgs readReply events c sentence = Some ((None, Some errAsyncTimeout), c')"
      then obtain t where
        "readAllSentences (timeout c) (events t) = Some (None, Some errAsyncTimeout)"
        using RunArgs_async_result [OF ac] by blast
      then show False using closed by blast
    qed
    have a2: "RunArgs readReply events c sentence \<noteq> Some ((rp, Some errAsyncTimeout), c')"
      if ac: "async c" and nc: "\<forall>t rep. Closed rep (Some errAsyncTimeout) \<notin> set (events t)"
      for rp c'
    proof
      assume "RunArgs readReply events c sentence = Some ((rp, Some errAsyncTimeout), c')"
      then obtain t where
        "readAllSentences (timeout c) (events t) = Some (rp, Some errAsyncTimeout)"
        using RunArgs_async_result [OF ac] by blast
      then show False using closed nc by blast
    qed
    show ?thesis using nt closed unb a1 a2 by blast
  qed
  show ?thesis using pos neg by blast
qed

theorem no_timer_no_async_timeout_witness:
  "\<not> 0 <s timeout ((NewClient [] [] 0)\<lparr>async := True\<rparr>)
   \<and> newTimeoutTimer 0 = None
   \<and> readAllSentences 0 [TimerFired, Received, TimerFired, Closed \<lparr>Re = [], Done = None\<rparr> None]
       = Some (Some \<lparr>Re = [], Done = None\<rparr>, None)
   \<and> (0 :: int64) <s 5
   \<and> readAllSentences 5 [TimerFired, Received, TimerFired, Closed \<lparr>Re = [], Done = None\<rparr> None]
       = Some (None, Some errAsyncTimeout)"
proof -
  have h: "\<not> 0 <s timeout ((NewClient [] [] 0)\<lparr>async := True\<rparr>)"
    by (simp add: NewClient_def)
  have p: "(0 :: int64) <s 5" by (simp add: word_sless_alt)
  have t: "timeout ((NewClient [] [] 0)\<lparr>async := True\<rparr>) = 0" by (simp add: NewClient_def)
  have run: "readAllSentences 0
      [TimerFired, Received, TimerFired, Closed \<lparr>Re = [], Done = None\<rparr> None]
       = Some (Some \<lparr>Re = [], Done = None\<rparr>, None)"
    by (simp add: newTimeoutTimer_def)
  show ?thesis
    using h p run
      no_timer_no_async_timeout [where c = "(NewClient [] [] 0)\<lparr>async := True\<rparr>" and d = 5
        and evs = "[Received, TimerFired, Closed \<lparr>Re = [], Done = None\<rparr> None]"]
    by (simp add: t)
qed

section \<open>The login handshake\<close>

















end
